theory Spec2Isabelle
  imports Main "HOL-Library.Sublist"
begin

section \<open>Strings\<close>

text \<open>
  A JavaScript string is modelled as a \<open>string\<close>: a list of code units, here the ones below
  256. \<open>slice\<close>, \<open>startsWith\<close>, \<open>indexOf\<close> and \<open>trim\<close> are the methods of
  \<open>String.prototype\<close> that the two source files call.
\<close>

definition nl :: char where
  "nl = CHR 0x0A"

definition fence :: string where
  "fence = ''```''"

text \<open>\<open>s.slice(a, b)\<close> and \<open>s.slice(a)\<close> for indices \<open>0 \<le> a\<close>, \<open>0 \<le> b\<close>.\<close>

definition slice :: "string \<Rightarrow> nat \<Rightarrow> nat \<Rightarrow> string" where
  "slice s a b = take (b - a) (drop a s)"

definition slice_from :: "string \<Rightarrow> nat \<Rightarrow> string" where
  "slice_from s a = drop a s"

definition startsWith :: "string \<Rightarrow> string \<Rightarrow> bool" where
  "startsWith s pat = prefix pat s"

text \<open>
  \<open>s.indexOf(pat, from)\<close>: the least index \<open>\<ge> from\<close> where \<open>pat\<close> occurs; \<open>None\<close> is
  the result \<open>-1\<close>.
\<close>

fun indexOf_aux :: "string \<Rightarrow> string \<Rightarrow> nat \<Rightarrow> nat option" where
  "indexOf_aux pat [] k = (if pat = [] then Some k else None)"
| "indexOf_aux pat (c # cs) k =
     (if prefix pat (c # cs) then Some k else indexOf_aux pat cs (Suc k))"

definition indexOf :: "string \<Rightarrow> string \<Rightarrow> nat \<Rightarrow> nat option" where
  "indexOf s pat from = indexOf_aux pat (drop from s) (min from (length s))"

text \<open>
  The white space and line terminators that \<open>trim\<close> strips, among the code units below
  256: tab, line feed, vertical tab, form feed, carriage return, space, no-break space.
\<close>

definition is_space :: "char \<Rightarrow> bool" where
  "is_space c = (c \<in> set [CHR 0x09, CHR 0x0A, CHR 0x0B, CHR 0x0C, CHR 0x0D, CHR 0x20, CHR 0xA0])"

definition trim :: "string \<Rightarrow> string" where
  "trim s = rev (dropWhile is_space (rev (dropWhile is_space s)))"

text \<open>The class \<open>\w\<close> of a regular expression without the unicode flag.\<close>

definition is_word :: "char \<Rightarrow> bool" where
  "is_word c = (c \<in> set
     ''abcdefghijklmnopqrstuvwxyzABCDEFGHIJKLMNOPQRSTUVWXYZ0123456789_'')"


section \<open>The segment parser (\<open>src/utils/messageParser.ts\<close>)\<close>

datatype part_type = TextPart | CodePart

record MessagePart =
  ptype :: part_type
  content :: string
  language :: "string option"

text \<open>The two object literals that \<open>parseMessage\<close> pushes.\<close>

definition text_part :: "string \<Rightarrow> MessagePart" where
  "text_part c = \<lparr>ptype = TextPart, content = c, language = None\<rparr>"

definition code_part :: "string \<Rightarrow> string \<Rightarrow> MessagePart" where
  "code_part c l = \<lparr>ptype = CodePart, content = c, language = Some l\<rparr>"

subsection \<open>The regular expression\<close>

text \<open>
  The result of one successful \<open>exec\<close> of the pattern
  \<^verbatim>\<open>/```(\w+)?\n([\s\S]*?)```/g\<close>: the index of the match, the matched text and
  the two capture groups (the first is \<open>undefined\<close> when the group did not take part).
\<close>

record RegExpMatch =
  index :: nat
  m0 :: string
  m1 :: "string option"
  m2 :: string

text \<open>
  \<^verbatim>\<open>([\s\S]*?)```\<close>: the lazy star takes no character, then one, then two, and
  stops at the first length after which the three backticks follow.
\<close>

fun lazy_body :: "string \<Rightarrow> string option" where
  "lazy_body [] = None"
| "lazy_body (c # cs) =
     (if prefix fence (c # cs) then Some [] else map_option ((#) c) (lazy_body cs))"

text \<open>\<^verbatim>\<open>\n([\s\S]*?)```\<close>, what follows the optional group.\<close>

definition after_tag :: "string \<Rightarrow> string option" where
  "after_tag t = (case t of [] \<Rightarrow> None | c # r \<Rightarrow> if c = nl then lazy_body r else None)"

text \<open>
  \<^verbatim>\<open>(\w+)?\<close> is greedy and backtracks: with \<open>n\<close> word characters available it
  tries the group on \<open>n\<close> of them, then on \<open>n - 1\<close>, down to one, and last it tries to leave
  the group out. The first alternative after which the rest of the pattern matches wins.
\<close>

fun tag_alts :: "nat \<Rightarrow> string \<Rightarrow> (string option \<times> string) option" where
  "tag_alts 0 t = map_option (Pair None) (after_tag t)"
| "tag_alts (Suc n) t =
     (case after_tag (drop (Suc n) t) of
        Some b \<Rightarrow> Some (Some (take (Suc n) t), b)
      | None \<Rightarrow> tag_alts n t)"

text \<open>A match attempt of the whole pattern at the start of \<open>u\<close>.\<close>

definition match_here :: "string \<Rightarrow> (string \<times> string option \<times> string) option" where
  "match_here u =
     (if prefix fence u then
        (let t = drop 3 u in
         case tag_alts (length (takeWhile is_word t)) t of
           None \<Rightarrow> None
         | Some (g1, body) \<Rightarrow>
             Some (fence @ (case g1 of None \<Rightarrow> [] | Some w \<Rightarrow> w) @ [nl] @ body @ fence,
                   g1, body))
      else None)"

text \<open>The attempts move right one index at a time; \<open>k\<close> is the index of \<open>u\<close> in the message.\<close>

fun regex_search :: "string \<Rightarrow> nat \<Rightarrow> RegExpMatch option" where
  "regex_search [] k = None"
| "regex_search (c # cs) k =
     (case match_here (c # cs) of
        Some (a, g1, g2) \<Rightarrow> Some \<lparr>index = k, m0 = a, m1 = g1, m2 = g2\<rparr>
      | None \<Rightarrow> regex_search cs (Suc k))"

text \<open>
  \<open>codeBlockRegex.exec(message)\<close> with the global flag starts at the \<open>lastIndex\<close> of the
  regular expression, which \<open>exec\<close> sets to the end of each match: the same number as the
  variable \<open>lastIndex\<close> of \<open>parseMessage\<close>, so one number stands for both.
\<close>

definition exec :: "string \<Rightarrow> nat \<Rightarrow> RegExpMatch option" where
  "exec message lastIndex =
     (if length message < lastIndex then None
      else regex_search (drop lastIndex message) lastIndex)"

lemma lazy_body_len: "lazy_body u = Some b \<Longrightarrow> length b + 3 \<le> length u"
proof (induction u arbitrary: b)
  case Nil
  then show ?case by simp
next
  case (Cons c cs)
  show ?case
  proof (cases "prefix fence (c # cs)")
    case True
    then have "length fence \<le> length (c # cs)" by (rule prefix_length_le)
    then have "3 \<le> length (c # cs)" by (simp add: fence_def)
    with True Cons.prems show ?thesis by simp
  next
    case False
    with Cons.prems obtain b' where "lazy_body cs = Some b'" "b = c # b'" by auto
    with Cons.IH [of b'] show ?thesis by simp
  qed
qed

lemma after_tag_len: "after_tag t = Some b \<Longrightarrow> length b + 4 \<le> length t"
  unfolding after_tag_def using lazy_body_len
  by (fastforce split: list.splits if_splits)

lemma tag_alts_len:
  "tag_alts n t = Some (g, b) \<Longrightarrow>
     length (case g of None \<Rightarrow> [] | Some w \<Rightarrow> w) + length b + 4 \<le> length t"
proof (induction n)
  case 0
  then show ?case using after_tag_len by auto
next
  case (Suc n)
  show ?case
  proof (cases "after_tag (drop (Suc n) t)")
    case None
    with Suc show ?thesis by simp
  next
    case (Some b')
    with Suc.prems have g: "g = Some (take (Suc n) t)" and b: "b = b'" by auto
    from after_tag_len [OF Some] have "length b' + 4 \<le> length t - Suc n" by simp
    with g b show ?thesis by simp
  qed
qed

lemma match_here_len:
  assumes "match_here u = Some (a, g1, g2)"
  shows "7 \<le> length a \<and> length a \<le> length u"
proof -
  from assms have p: "prefix fence u"
    unfolding match_here_def by (simp split: if_splits)
  from assms p obtain g b where
    t: "tag_alts (length (takeWhile is_word (drop 3 u))) (drop 3 u) = Some (g, b)"
    and a: "a = fence @ (case g of None \<Rightarrow> [] | Some w \<Rightarrow> w) @ [nl] @ b @ fence"
    unfolding match_here_def by (auto simp: Let_def split: option.splits)
  from tag_alts_len [OF t] have
    "length (case g of None \<Rightarrow> [] | Some w \<Rightarrow> w) + length b + 4 \<le> length u - 3" by simp
  with a show ?thesis by (simp add: fence_def)
qed

lemma regex_search_bounds:
  "regex_search u k = Some r \<Longrightarrow>
     k \<le> index r \<and> 7 \<le> length (m0 r) \<and> index r + length (m0 r) \<le> k + length u"
proof (induction u k rule: regex_search.induct)
  case (1 k)
  then show ?case by simp
next
  case (2 c cs k)
  show ?case
  proof (cases "match_here (c # cs)")
    case None
    with 2 show ?thesis by fastforce
  next
    case (Some x)
    obtain a g1 g2 where x: "x = (a, g1, g2)" by (cases x)
    from match_here_len [of "c # cs" a g1 g2] Some x
    have "7 \<le> length a \<and> length a \<le> length (c # cs)" by simp
    with "2.prems" Some x show ?thesis by auto
  qed
qed

lemma exec_bounds:
  assumes "exec message lastIndex = Some r"
  shows "lastIndex \<le> index r" and "7 \<le> length (m0 r)"
    and "index r + length (m0 r) \<le> length message"
proof -
  from assms have le: "lastIndex \<le> length message"
    and s: "regex_search (drop lastIndex message) lastIndex = Some r"
    unfolding exec_def by (auto split: if_splits)
  from regex_search_bounds [OF s] le
  show "lastIndex \<le> index r" "7 \<le> length (m0 r)"
    "index r + length (m0 r) \<le> length message" by auto
qed

subsection \<open>\<open>parseMessage\<close>\<close>

text \<open>
  The \<open>while\<close> loop and the statement after it, from the state \<open>lastIndex\<close>, \<open>parts\<close>.
  \<open>match[1] || 'plaintext'\<close> takes the default when the group is \<open>undefined\<close> or empty.
\<close>

definition or_plaintext :: "string option \<Rightarrow> string" where
  "or_plaintext g = (case g of None \<Rightarrow> ''plaintext'' | Some w \<Rightarrow> if w = [] then ''plaintext'' else w)"

function loop :: "string \<Rightarrow> nat \<Rightarrow> MessagePart list \<Rightarrow> MessagePart list" where
  "loop message lastIndex parts =
     (case exec message lastIndex of
        Some match \<Rightarrow>
          loop message (index match + length (m0 match))
            ((if lastIndex < index match
              then parts @ [text_part (slice message lastIndex (index match))]
              else parts)
             @ [code_part (trim (m2 match)) (or_plaintext (m1 match))])
      | None \<Rightarrow>
          (if lastIndex < length message
           then parts @ [text_part (slice_from message lastIndex)]
           else parts))"
  by pat_completeness auto

termination
proof (relation "measure (\<lambda>(message, lastIndex, parts). length message - lastIndex)")
  show "wf (measure (\<lambda>(message, lastIndex, parts). length message - lastIndex))" by simp
next
  fix message :: string and lastIndex :: nat and parts :: "MessagePart list"
    and match :: RegExpMatch
  assume e: "exec message lastIndex = Some match"
  from exec_bounds [OF e]
  show "((message, index match + length (m0 match),
          (if lastIndex < index match
           then parts @ [text_part (slice message lastIndex (index match))]
           else parts) @ [code_part (trim (m2 match)) (or_plaintext (m1 match))]),
         (message, lastIndex, parts))
        \<in> measure (\<lambda>(message, lastIndex, parts). length message - lastIndex)"
    by simp
qed

definition parseMessage :: "string \<Rightarrow> MessagePart list" where
  "parseMessage message = loop message 0 []"


section \<open>The incremental revealer (\<open>src/components/TypewriterMessage.tsx\<close>)\<close>

text \<open>
  The four state variables of the component; the property \<open>onComplete\<close> of its latest
  render, as the identity of the function that the caller passes (\<open>None\<close> when it passes
  none); and two things that the code leaves to React and to its caller: whether a
  \<open>setTimeout\<close> callback of the effect is scheduled and not cleared, and how often
  \<open>onComplete\<close> has been called. The property \<open>content\<close> is the same in every render of
  one message; it is the parameter \<open>fullText\<close> of the definitions (\<open>content\<close> is a field
  of a message part).
\<close>

record TypewriterState =
  displayedContent :: string
  currentIndex :: nat
  isPaused :: bool
  isComplete :: bool
  onComplete :: "nat option"
  timerPending :: bool
  completions :: nat

definition initial :: "nat option \<Rightarrow> TypewriterState" where
  "initial cb = \<lparr>displayedContent = [], currentIndex = 0, isPaused = False,
                 isComplete = False, onComplete = cb, timerPending = False,
                 completions = 0\<rparr>"

text \<open>
  The body of \<open>useEffect\<close>: below the end of \<open>fullText\<close> it schedules the timeout, at the
  end it sets \<open>isComplete\<close> and evaluates \<open>onComplete?.()\<close>, a call when the property is a
  function.
\<close>

definition effect :: "string \<Rightarrow> TypewriterState \<Rightarrow> TypewriterState" where
  "effect fullText st =
     (if currentIndex st < length fullText
      then st\<lparr>timerPending := True\<rparr>
      else st\<lparr>isComplete := True,
              completions := completions st + (case onComplete st of None \<Rightarrow> 0 | Some f \<Rightarrow> 1)\<rparr>)"

text \<open>The callback passed to \<open>setTimeout\<close>, in the render where the index is \<open>currentIndex st\<close>.\<close>

definition timeout_callback :: "string \<Rightarrow> TypewriterState \<Rightarrow> TypewriterState" where
  "timeout_callback fullText st =
     (let remainingContent = slice_from fullText (currentIndex st);
          charsToAdd = min 3 (length fullText - currentIndex st);
          nextChars = slice fullText (currentIndex st) (currentIndex st + charsToAdd);
          plain = st\<lparr>displayedContent := displayedContent st @ nextChars,
                     currentIndex := currentIndex st + charsToAdd\<rparr>
      in if startsWith (slice_from fullText (currentIndex st)) fence then
           (case indexOf remainingContent fence 3 of
              Some endIndex \<Rightarrow>
                (let codeBlock = slice remainingContent 0 (endIndex + 3)
                 in st\<lparr>displayedContent := displayedContent st @ codeBlock,
                       currentIndex := currentIndex st + length codeBlock\<rparr>)
            | None \<Rightarrow> plain)
         else plain)"

text \<open>The click handler.\<close>

definition handleClick :: "string \<Rightarrow> TypewriterState \<Rightarrow> TypewriterState" where
  "handleClick fullText st =
     (if currentIndex st < length fullText
      then st\<lparr>isPaused := True, displayedContent := fullText,
              currentIndex := length fullText\<rparr>
      else st)"

text \<open>
  After a state change, or when the caller renders the component again, React compares
  the dependencies \<open>[currentIndex, content, isPaused, onComplete]\<close> of the effect with
  those of the render before (\<open>content\<close> does not change); when one has changed it runs
  the cleanup, which clears the timeout, and then the effect.
\<close>

definition rerender :: "string \<Rightarrow> TypewriterState \<Rightarrow> TypewriterState \<Rightarrow> TypewriterState" where
  "rerender fullText old new =
     (if currentIndex new \<noteq> currentIndex old \<or> isPaused new \<noteq> isPaused old \<or>
         onComplete new \<noteq> onComplete old
      then effect fullText (new\<lparr>timerPending := False\<rparr>)
      else new)"

datatype event = Tick | Click | Render "nat option"

text \<open>
  \<open>Tick\<close>: the scheduled timeout fires, if there is one. \<open>Click\<close>: the user clicks.
  \<open>Render cb\<close>: the caller renders the component again and passes \<open>cb\<close> as \<open>onComplete\<close>.
\<close>

fun step :: "string \<Rightarrow> TypewriterState \<Rightarrow> event \<Rightarrow> TypewriterState" where
  "step fullText st Tick =
     (if timerPending st
      then rerender fullText st (timeout_callback fullText (st\<lparr>timerPending := False\<rparr>))
      else st)"
| "step fullText st Click = rerender fullText st (handleClick fullText st)"
| "step fullText st (Render cb) = rerender fullText st (st\<lparr>onComplete := cb\<rparr>)"

text \<open>
  The state after mounting the component with \<open>onComplete = cb\<close> and a sequence of
  events.
\<close>

definition mount :: "string \<Rightarrow> nat option \<Rightarrow> TypewriterState" where
  "mount fullText cb = effect fullText (initial cb)"

definition run :: "string \<Rightarrow> nat option \<Rightarrow> event list \<Rightarrow> TypewriterState" where
  "run fullText cb evs = foldl (step fullText) (mount fullText cb) evs"

text \<open>\<open>renderContent\<close>: nothing for the empty string, else the parts of the displayed prefix.\<close>

definition renderContent :: "TypewriterState \<Rightarrow> MessagePart list option" where
  "renderContent st =
     (if displayedContent st = [] then None else Some (parseMessage (displayedContent st)))"


section \<open>Notions used in the properties\<close>

subsection \<open>Of the parser\<close>

text \<open>The opener of a block: three backticks, the word characters after them, a newline.\<close>

definition header :: "string \<Rightarrow> (string \<times> string) option" where
  "header u =
     (if prefix fence u then
        (case dropWhile is_word (drop 3 u) of
           [] \<Rightarrow> None
         | c # r \<Rightarrow> if c = nl then Some (takeWhile is_word (drop 3 u), r) else None)
      else None)"

text \<open>No two neighbours in a list of parts are both text parts.\<close>

fun no_adjacent_text :: "MessagePart list \<Rightarrow> bool" where
  "no_adjacent_text [] = True"
| "no_adjacent_text [p] = True"
| "no_adjacent_text (p # q # ps) =
     (\<not> (ptype p = TextPart \<and> ptype q = TextPart) \<and> no_adjacent_text (q # ps))"

text \<open>
  The source text of a fenced block, split into its tag and its inner text: three
  backticks, word characters, a newline, the inner text, three backticks.
\<close>

definition fenced_source :: "string \<Rightarrow> (string \<times> string) option" where
  "fenced_source src =
     (case header src of
        None \<Rightarrow> None
      | Some (w, r) \<Rightarrow> if suffix fence r then Some (w, take (length r - 3) r) else None)"

text \<open>
  A part renders a piece of the message: a text part is that piece, a code part is the
  trimmed inner text of that piece, which is a fenced block, with its tag or the default.
\<close>

definition renders :: "MessagePart \<Rightarrow> string \<Rightarrow> bool" where
  "renders p src =
     (case ptype p of
        TextPart \<Rightarrow> content p = src \<and> language p = None
      | CodePart \<Rightarrow>
          (case fenced_source src of
             None \<Rightarrow> False
           | Some (w, inner) \<Rightarrow>
               content p = trim inner \<and>
               language p = Some (if w = [] then ''plaintext'' else w)))"

subsection \<open>Of the revealer\<close>

text \<open>The number of characters that the callback reveals at the index \<open>cur\<close>.\<close>

definition jump :: "string \<Rightarrow> nat \<Rightarrow> nat" where
  "jump fullText cur =
     (let remaining = drop cur fullText in
      if prefix fence remaining then
        (case indexOf remaining fence 3 of
           Some endIndex \<Rightarrow> endIndex + 3
         | None \<Rightarrow> min 3 (length fullText - cur))
      else min 3 (length fullText - cur))"

text \<open>
  What holds in every state after mounting: the index is inside the text, the displayed
  text is the prefix up to the index, a timeout is scheduled exactly below the end, the
  message is complete exactly at the end, and \<open>onComplete\<close> has not been called before.
\<close>

definition reveal_inv :: "string \<Rightarrow> TypewriterState \<Rightarrow> bool" where
  "reveal_inv fullText st \<longleftrightarrow>
     currentIndex st \<le> length fullText \<and>
     displayedContent st = take (currentIndex st) fullText \<and>
     (timerPending st \<longleftrightarrow> currentIndex st < length fullText) \<and>
     (isComplete st \<longleftrightarrow> currentIndex st = length fullText) \<and>
     (currentIndex st < length fullText \<longrightarrow> completions st = 0)"

text \<open>Every render of the sequence passes the same \<open>onComplete\<close> as the first.\<close>

definition same_onComplete :: "nat option \<Rightarrow> event list \<Rightarrow> bool" where
  "same_onComplete cb evs =
     list_all (\<lambda>e. case e of Render c \<Rightarrow> c = cb | Tick \<Rightarrow> True | Click \<Rightarrow> True) evs"

text \<open>
  With the same \<open>onComplete\<close> in every render, the property keeps its first value and has
  been called once exactly when the message is complete and the property is a function.
\<close>

definition called_once :: "string \<Rightarrow> nat option \<Rightarrow> TypewriterState \<Rightarrow> bool" where
  "called_once fullText cb st \<longleftrightarrow>
     onComplete st = cb \<and>
     completions st = (if currentIndex st = length fullText \<and> cb \<noteq> None then 1 else 0)"


section \<open>Properties of the revealer\<close>

subsection \<open>\<open>indexOf\<close> finds the first occurrence\<close>

lemma indexOf_aux_Some:
  "indexOf_aux pat u k = Some j \<Longrightarrow>
     k \<le> j \<and> prefix pat (drop (j - k) u) \<and> (\<forall>i. i < j - k \<longrightarrow> \<not> prefix pat (drop i u))"
proof (induction u arbitrary: k)
  case Nil
  then show ?case by (simp split: if_splits)
next
  case (Cons c cs)
  show ?case
  proof (cases "prefix pat (c # cs)")
    case True
    with Cons.prems show ?thesis by simp
  next
    case False
    with Cons.prems have r: "indexOf_aux pat cs (Suc k) = Some j" by simp
    from Cons.IH [OF r] have a: "Suc k \<le> j" and b: "prefix pat (drop (j - Suc k) cs)"
      and c: "\<forall>i. i < j - Suc k \<longrightarrow> \<not> prefix pat (drop i cs)" by auto
    from a have e: "j - k = Suc (j - Suc k)" by simp
    have "\<not> prefix pat (drop i (c # cs))" if "i < j - k" for i
    proof (cases i)
      case 0
      with False show ?thesis by simp
    next
      case (Suc i')
      with that e have "i' < j - Suc k" by simp
      with c Suc show ?thesis by simp
    qed
    with a b e show ?thesis by simp
  qed
qed

lemma indexOf_aux_None:
  "indexOf_aux pat u k = None \<Longrightarrow> \<not> prefix pat (drop i u)"
proof (induction u arbitrary: k i)
  case Nil
  then show ?case by (simp split: if_splits)
next
  case (Cons c cs)
  from Cons.prems have np: "\<not> prefix pat (c # cs)" and r: "indexOf_aux pat cs (Suc k) = None"
    by (auto split: if_splits)
  show ?case
  proof (cases i)
    case 0
    with np show ?thesis by simp
  next
    case (Suc i')
    with Cons.IH [OF r, of i'] show ?thesis by simp
  qed
qed

lemma indexOf_Some:
  assumes "indexOf s pat from = Some j" and "from \<le> length s"
  shows "from \<le> j" and "prefix pat (drop j s)"
    and "\<And>i. from \<le> i \<Longrightarrow> i < j \<Longrightarrow> \<not> prefix pat (drop i s)"
proof -
  from assms have a: "indexOf_aux pat (drop from s) from = Some j"
    by (simp add: indexOf_def min_def)
  note r = indexOf_aux_Some [OF a]
  from r show f: "from \<le> j" by simp
  from r f show "prefix pat (drop j s)" by simp
  fix i assume "from \<le> i" "i < j"
  then have "i - from < j - from" by simp
  with r have "\<not> prefix pat (drop (i - from) (drop from s))" by blast
  with \<open>from \<le> i\<close> show "\<not> prefix pat (drop i s)" by simp
qed

lemma indexOf_None:
  assumes "indexOf s pat from = None" and "from \<le> i"
  shows "\<not> prefix pat (drop i s)"
proof -
  from assms have "indexOf_aux pat (drop from s) (min from (length s)) = None"
    by (simp add: indexOf_def)
  from indexOf_aux_None [OF this, of "i - from"] assms(2) show ?thesis by simp
qed

lemma prefix_fence_len: "prefix fence u \<Longrightarrow> 3 \<le> length u"
  using prefix_length_le [of fence u] by (simp add: fence_def)

subsection \<open>One step of the timeout callback\<close>

lemma jump_bounds:
  assumes "cur < length fullText"
  shows "0 < jump fullText cur" and "cur + jump fullText cur \<le> length fullText"
proof -
  let ?r = "drop cur fullText"
  have both: "0 < jump fullText cur \<and> cur + jump fullText cur \<le> length fullText"
  proof (cases "prefix fence ?r")
    case False
    with assms show ?thesis by (simp add: jump_def)
  next
    case True
    note p = prefix_fence_len [OF True]
    show ?thesis
    proof (cases "indexOf ?r fence 3")
      case None
      with True assms show ?thesis by (simp add: jump_def)
    next
      case (Some e)
      from p have "3 \<le> length ?r" by simp
      from indexOf_Some(2) [OF Some this] have "prefix fence (drop e ?r)" .
      from prefix_fence_len [OF this] have "e + 3 \<le> length ?r" by simp
      with True Some show ?thesis by (simp add: jump_def)
    qed
  qed
  from both show "0 < jump fullText cur" "cur + jump fullText cur \<le> length fullText" by auto
qed

lemma timeout_callback_eq:
  assumes "currentIndex st < length fullText"
  shows "timeout_callback fullText st =
     st\<lparr>displayedContent := displayedContent st
            @ take (jump fullText (currentIndex st)) (drop (currentIndex st) fullText),
        currentIndex := currentIndex st + jump fullText (currentIndex st)\<rparr>"
proof -
  let ?cur = "currentIndex st"
  let ?r = "drop ?cur fullText"
  show ?thesis
  proof (cases "prefix fence ?r")
    case False
    then show ?thesis
      by (simp add: timeout_callback_def jump_def slice_def slice_from_def startsWith_def Let_def)
  next
    case True
    show ?thesis
    proof (cases "indexOf ?r fence 3")
      case None
      with True show ?thesis
        by (simp add: timeout_callback_def jump_def slice_def slice_from_def startsWith_def Let_def)
    next
      case (Some e)
      from jump_bounds(2) [OF assms] True Some have "e + 3 \<le> length ?r"
        by (simp add: jump_def)
      then have "min (length fullText - ?cur) (e + 3) = e + 3" by simp
      with True Some show ?thesis
        by (simp add: timeout_callback_def jump_def slice_def slice_from_def startsWith_def Let_def)
    qed
  qed
qed

lemma indexOf_least:
  assumes "from \<le> j" and "prefix pat (drop j s)" and "from \<le> length s"
    and "\<And>i. from \<le> i \<Longrightarrow> i < j \<Longrightarrow> \<not> prefix pat (drop i s)"
  shows "indexOf s pat from = Some j"
proof (cases "indexOf s pat from")
  case None
  from indexOf_None [OF None assms(1)] assms(2) show ?thesis by simp
next
  case (Some j')
  note r = indexOf_Some [OF Some assms(3)]
  have "\<not> j' < j" using assms(4) [of j'] r(1,2) by blast
  moreover have "\<not> j < j'" using r(3) [of j] assms(1,2) by blast
  ultimately show ?thesis using Some by simp
qed

subsection \<open>The states that a message can reach\<close>

lemma reveal_inv_mount: "reveal_inv fullText (mount fullText cb)"
  by (auto simp: reveal_inv_def mount_def effect_def initial_def)

lemma tick_eq:
  assumes "reveal_inv fullText st" and "currentIndex st < length fullText"
  shows "step fullText st Tick =
     effect fullText (st\<lparr>displayedContent := displayedContent st
            @ take (jump fullText (currentIndex st)) (drop (currentIndex st) fullText),
        currentIndex := currentIndex st + jump fullText (currentIndex st),
        timerPending := False\<rparr>)"
proof -
  from assms have tp: "timerPending st" by (simp add: reveal_inv_def)
  have c: "currentIndex (st\<lparr>timerPending := False\<rparr>) < length fullText" using assms by simp
  from jump_bounds(1) [OF assms(2)] have "0 < jump fullText (currentIndex st)" .
  with tp show ?thesis
    by (simp add: timeout_callback_eq [OF c] rerender_def)
qed

lemma tick_done:
  assumes "reveal_inv fullText st" and "\<not> currentIndex st < length fullText"
  shows "step fullText st Tick = st"
  using assms by (simp add: reveal_inv_def)

lemma click_eq:
  assumes "currentIndex st < length fullText"
  shows "step fullText st Click =
     st\<lparr>isPaused := True, displayedContent := fullText, currentIndex := length fullText,
        timerPending := False, isComplete := True,
        completions := completions st + (case onComplete st of None \<Rightarrow> 0 | Some f \<Rightarrow> 1)\<rparr>"
  using assms by (simp add: handleClick_def rerender_def effect_def)

lemma click_done:
  assumes "\<not> currentIndex st < length fullText"
  shows "step fullText st Click = st"
  using assms by (simp add: handleClick_def rerender_def)

lemma render_same:
  assumes "cb = onComplete st"
  shows "step fullText st (Render cb) = st"
  using assms by (simp add: rerender_def)

lemma render_new_running:
  assumes "cb \<noteq> onComplete st" and "currentIndex st < length fullText"
  shows "step fullText st (Render cb) = st\<lparr>onComplete := cb, timerPending := True\<rparr>"
  using assms by (simp add: rerender_def effect_def)

lemma render_new_done:
  assumes "cb \<noteq> onComplete st" and "\<not> currentIndex st < length fullText"
  shows "step fullText st (Render cb) =
     st\<lparr>onComplete := cb, timerPending := False, isComplete := True,
        completions := completions st + (case cb of None \<Rightarrow> 0 | Some f \<Rightarrow> 1)\<rparr>"
  using assms by (simp add: rerender_def effect_def)

lemma reveal_inv_render:
  assumes "reveal_inv fullText st"
  shows "reveal_inv fullText (step fullText st (Render cb))"
proof (cases "cb = onComplete st")
  case True
  with assms show ?thesis by (simp add: render_same del: step.simps)
next
  case new: False
  show ?thesis
  proof (cases "currentIndex st < length fullText")
    case True
    with assms show ?thesis
      by (simp add: render_new_running [OF new True] reveal_inv_def del: step.simps)
  next
    case False
    with assms show ?thesis
      by (simp add: render_new_done [OF new False] reveal_inv_def del: step.simps)
  qed
qed

lemma reveal_inv_step:
  assumes "reveal_inv fullText st"
  shows "reveal_inv fullText (step fullText st e)"
proof (cases e)
  case (Render cb)
  with reveal_inv_render [OF assms] show ?thesis by simp
next
  case Click
  show ?thesis
  proof (cases "currentIndex st < length fullText")
    case True
    with assms Click show ?thesis
      by (simp add: click_eq [OF True] reveal_inv_def del: step.simps)
  next
    case False
    with assms Click show ?thesis by (simp add: click_done [OF False] del: step.simps)
  qed
next
  case Tick
  show ?thesis
  proof (cases "currentIndex st < length fullText")
    case False
    with assms Tick show ?thesis by (simp add: tick_done [OF assms False] del: step.simps)
  next
    case True
    let ?j = "jump fullText (currentIndex st)"
    from jump_bounds [OF True] have j: "0 < ?j" "currentIndex st + ?j \<le> length fullText" .
    from assms have d: "displayedContent st = take (currentIndex st) fullText"
      and z: "completions st = 0" using True by (simp_all add: reveal_inv_def)
    have "take (currentIndex st) fullText @ take ?j (drop (currentIndex st) fullText)
            = take (currentIndex st + ?j) fullText"
      by (simp add: take_add)
    with Tick assms j d z show ?thesis
      by (auto simp: tick_eq [OF assms True] reveal_inv_def effect_def simp del: step.simps)
  qed
qed

lemma run_snoc: "run fullText cb (evs @ [e]) = step fullText (run fullText cb evs) e"
  by (simp add: run_def)

lemma reveal_inv_run: "reveal_inv fullText (run fullText cb evs)"
proof (induction evs rule: rev_induct)
  case Nil
  then show ?case by (simp add: run_def reveal_inv_mount)
next
  case (snoc e evs)
  then show ?case by (simp add: run_snoc reveal_inv_step del: step.simps)
qed

lemma step_mono:
  assumes "reveal_inv fullText st"
  shows "currentIndex st \<le> currentIndex (step fullText st e)"
proof (cases e)
  case (Render cb)
  show ?thesis
  proof (cases "cb = onComplete st")
    case True
    with Render show ?thesis by (simp add: render_same del: step.simps)
  next
    case False
    with Render show ?thesis
      by (cases "currentIndex st < length fullText")
        (simp_all add: render_new_running render_new_done del: step.simps)
  qed
next
  case Click
  then show ?thesis
    by (cases "currentIndex st < length fullText")
      (simp_all add: click_eq click_done del: step.simps)
next
  case Tick
  show ?thesis
  proof (cases "currentIndex st < length fullText")
    case True
    with Tick show ?thesis by (simp add: tick_eq [OF assms True] effect_def del: step.simps)
  next
    case False
    with Tick show ?thesis by (simp add: tick_done [OF assms False] del: step.simps)
  qed
qed

lemma ticks_progress:
  "min n (length fullText) \<le> currentIndex (run fullText cb (replicate n Tick))"
proof (induction n)
  case 0
  then show ?case by simp
next
  case (Suc n)
  let ?st = "run fullText cb (replicate n Tick)"
  have r: "run fullText cb (replicate (Suc n) Tick) = step fullText ?st Tick"
    using run_snoc [of fullText cb "replicate n Tick" Tick]
    by (simp add: replicate_append_same)
  note inv = reveal_inv_run [of fullText cb "replicate n Tick"]
  show ?case
  proof (cases "currentIndex ?st < length fullText")
    case False
    with Suc.IH have "min (Suc n) (length fullText) \<le> currentIndex ?st" by simp
    then show ?thesis unfolding r tick_done [OF inv False] .
  next
    case True
    have "currentIndex (step fullText ?st Tick)
            = currentIndex ?st + jump fullText (currentIndex ?st)"
      by (simp add: tick_eq [OF inv True] effect_def del: step.simps)
    with jump_bounds(1) [OF True] Suc.IH True
    have "min (Suc n) (length fullText) \<le> currentIndex (step fullText ?st Tick)"
      by linarith
    then show ?thesis unfolding r .
  qed
qed

lemma ticks_complete: "isComplete (run fullText cb (replicate (length fullText) Tick))"
  using ticks_progress [of "length fullText" fullText cb]
    reveal_inv_run [of fullText cb "replicate (length fullText) Tick"]
  by (simp add: reveal_inv_def)

lemma click_shows_all:
  assumes "reveal_inv fullText st"
  shows "displayedContent (step fullText st Click) = fullText"
    and "currentIndex (step fullText st Click) = length fullText"
    and "isComplete (step fullText st Click)"
proof -
  have "displayedContent (step fullText st Click) = fullText \<and>
        currentIndex (step fullText st Click) = length fullText \<and>
        isComplete (step fullText st Click)"
  proof (cases "currentIndex st < length fullText")
    case True
    then show ?thesis by (simp add: click_eq [OF True] del: step.simps)
  next
    case False
    with assms show ?thesis by (simp add: click_done [OF False] reveal_inv_def del: step.simps)
  qed
  then show "displayedContent (step fullText st Click) = fullText"
    "currentIndex (step fullText st Click) = length fullText"
    "isComplete (step fullText st Click)" by auto
qed

lemma click_twice: "step fullText (step fullText st Click) Click = step fullText st Click"
proof (cases "currentIndex st < length fullText")
  case True
  have "\<not> currentIndex (step fullText st Click) < length fullText"
    by (simp add: click_eq [OF True] del: step.simps)
  from click_done [OF this] show ?thesis .
next
  case False
  then show ?thesis by (simp add: click_done [OF False] del: step.simps)
qed

lemma called_once_step:
  assumes inv: "reveal_inv fullText st" and c: "called_once fullText cb st"
    and e: "case e of Render c \<Rightarrow> c = cb | Tick \<Rightarrow> True | Click \<Rightarrow> True"
  shows "called_once fullText cb (step fullText st e)"
proof (cases e)
  case (Render c')
  with e c have "c' = onComplete st" by (simp add: called_once_def)
  with Render c show ?thesis by (simp add: render_same del: step.simps)
next
  case Click
  show ?thesis
  proof (cases "currentIndex st < length fullText")
    case True
    with c Click show ?thesis
      by (cases cb) (simp_all add: click_eq [OF True] called_once_def del: step.simps)
  next
    case False
    with c Click show ?thesis by (simp add: click_done [OF False] del: step.simps)
  qed
next
  case Tick
  show ?thesis
  proof (cases "currentIndex st < length fullText")
    case False
    with c Tick show ?thesis by (simp add: tick_done [OF inv False] del: step.simps)
  next
    case True
    from jump_bounds [OF True] have j: "0 < jump fullText (currentIndex st)"
      "currentIndex st + jump fullText (currentIndex st) \<le> length fullText" .
    with c Tick True show ?thesis
      by (cases cb)
        (auto simp: tick_eq [OF inv True] called_once_def effect_def simp del: step.simps)
  qed
qed

lemma called_once_run:
  "same_onComplete cb evs \<Longrightarrow> called_once fullText cb (run fullText cb evs)"
proof (induction evs rule: rev_induct)
  case Nil
  show ?case by (cases cb) (auto simp: run_def mount_def effect_def initial_def called_once_def)
next
  case (snoc e evs)
  from snoc.prems have s: "same_onComplete cb evs"
    and e: "case e of Render c \<Rightarrow> c = cb | Tick \<Rightarrow> True | Click \<Rightarrow> True"
    by (simp_all add: same_onComplete_def)
  from called_once_step [OF reveal_inv_run snoc.IH [OF s] e] show ?case
    by (simp add: run_snoc del: step.simps)
qed

text \<open>
  Claim C9. In every state that one \<open>TypewriterMessage\<close> reaches by timeouts, clicks
  and renders of its caller, \<open>currentIndex\<close> is at most the length of \<open>content\<close>, it
  does not decrease from one state to the next, and the displayed content is
  \<open>content.slice(0, currentIndex)\<close>.
\<close>

theorem cursor_invariant:
  "currentIndex (run fullText cb evs) \<le> length fullText \<and>
   currentIndex (run fullText cb evs) \<le> currentIndex (run fullText cb (evs @ [e])) \<and>
   displayedContent (run fullText cb evs)
     = slice fullText 0 (currentIndex (run fullText cb evs))"
  using reveal_inv_run [of fullText cb evs] step_mono [of fullText "run fullText cb evs" e]
  by (simp add: run_snoc reveal_inv_def slice_def del: step.simps)

theorem cursor_invariant_witness:
  "currentIndex (run ''abcdefgh'' (Some 0) [Tick, Render (Some 1), Tick]) = 6 \<and>
   currentIndex (run ''abcdefgh'' (Some 0) [Tick, Render (Some 1), Tick]) \<le> length ''abcdefgh'' \<and>
   currentIndex (run ''abcdefgh'' (Some 0) [Tick, Render (Some 1), Tick])
     \<le> currentIndex (run ''abcdefgh'' (Some 0) ([Tick, Render (Some 1), Tick] @ [Click])) \<and>
   displayedContent (run ''abcdefgh'' (Some 0) [Tick, Render (Some 1), Tick]) = ''abcdef''"
proof -
  have a: "currentIndex (run ''abcdefgh'' (Some 0) [Tick, Render (Some 1), Tick]) = 6"
    by code_simp
  have b: "slice ''abcdefgh'' 0 6 = ''abcdef''" by code_simp
  from cursor_invariant [of "''abcdefgh''" "Some 0" "[Tick, Render (Some 1), Tick]" Click] a b
  show ?thesis by (simp del: step.simps)
qed

text \<open>
  Claim C10, as the code has it. A click shows the full text and puts the index at its
  end; a second click changes nothing, and neither does a click after completion; when
  the message is complete no timeout is scheduled and a timeout event changes nothing; a
  click completes the message, and so do as many timeouts as the text has characters.
  \<open>onComplete\<close> is not called before the message is complete. When every render passes
  the same \<open>onComplete\<close>, it has been called once when the message is complete and the
  caller passes a function, and not at all otherwise. After completion, a render that
  passes another function calls that function once more, and schedules no timeout.
\<close>

theorem force_complete_idempotent:
  "displayedContent (step fullText (run fullText cb evs) Click) = fullText \<and>
   currentIndex (step fullText (run fullText cb evs) Click) = length fullText \<and>
   step fullText (step fullText (run fullText cb evs) Click) Click
     = step fullText (run fullText cb evs) Click \<and>
   (isComplete (run fullText cb evs) \<longrightarrow>
      step fullText (run fullText cb evs) Click = run fullText cb evs) \<and>
   isComplete (run fullText cb evs) = (currentIndex (run fullText cb evs) = length fullText) \<and>
   (isComplete (run fullText cb evs) \<longrightarrow>
      \<not> timerPending (run fullText cb evs) \<and>
      step fullText (run fullText cb evs) Tick = run fullText cb evs) \<and>
   isComplete (step fullText (run fullText cb evs) Click) \<and>
   isComplete (run fullText cb (replicate (length fullText) Tick)) \<and>
   (\<not> isComplete (run fullText cb evs) \<longrightarrow> completions (run fullText cb evs) = 0) \<and>
   (same_onComplete cb evs \<longrightarrow>
      completions (run fullText cb evs)
        = (if isComplete (run fullText cb evs) \<and> cb \<noteq> None then 1 else 0)) \<and>
   (isComplete (run fullText cb evs) \<longrightarrow>
      completions (step fullText (run fullText cb evs) (Render c))
        = completions (run fullText cb evs)
          + (if c \<noteq> onComplete (run fullText cb evs) \<and> c \<noteq> None then 1 else 0) \<and>
      \<not> timerPending (step fullText (run fullText cb evs) (Render c)))"
proof -
  let ?st = "run fullText cb evs"
  note inv = reveal_inv_run [of fullText cb evs]
  have a: "isComplete ?st \<Longrightarrow> step fullText ?st Click = ?st"
    using inv click_done [of ?st fullText] by (simp add: reveal_inv_def del: step.simps)
  have b: "isComplete ?st \<Longrightarrow> step fullText ?st Tick = ?st"
    using inv tick_done [OF inv] by (simp add: reveal_inv_def del: step.simps)
  have c: "isComplete ?st \<Longrightarrow> \<not> timerPending ?st"
    using inv by (simp add: reveal_inv_def)
  have d: "\<not> isComplete ?st \<Longrightarrow> completions ?st = 0"
    using inv by (auto simp: reveal_inv_def)
  have e: "isComplete ?st = (currentIndex ?st = length fullText)"
    using inv by (simp add: reveal_inv_def)
  have f: "completions ?st = (if isComplete ?st \<and> cb \<noteq> None then 1 else 0)"
    if "same_onComplete cb evs"
    using called_once_run [OF that, of fullText] e by (simp add: called_once_def)
  have g: "completions (step fullText ?st (Render c))
        = completions ?st + (if c \<noteq> onComplete ?st \<and> c \<noteq> None then 1 else 0) \<and>
      \<not> timerPending (step fullText ?st (Render c))" if fin: "isComplete ?st"
  proof (cases "c = onComplete ?st")
    case True
    with c [OF fin] show ?thesis by (simp add: render_same del: step.simps)
  next
    case False
    from fin e have nd: "\<not> currentIndex ?st < length fullText" by simp
    have "completions (step fullText ?st (Render c))
        = completions ?st + (case c of None \<Rightarrow> 0 | Some f \<Rightarrow> 1)"
      and "\<not> timerPending (step fullText ?st (Render c))"
      unfolding render_new_done [OF False nd] by simp_all
    with False show ?thesis by (cases c) simp_all
  qed
  from click_shows_all [OF inv] click_twice [of fullText ?st] a b c d e f g
    ticks_complete [of fullText cb]
  show ?thesis by (simp del: step.simps)
qed

theorem force_complete_idempotent_witness:
  "isComplete (run ''ab```'' (Some 7) [Tick, Render (Some 7), Click]) \<and>
   step ''ab```'' (run ''ab```'' (Some 7) [Tick, Render (Some 7), Click]) Click
     = run ''ab```'' (Some 7) [Tick, Render (Some 7), Click] \<and>
   same_onComplete (Some 7) [Tick, Render (Some 7), Click] \<and>
   completions (run ''ab```'' (Some 7) [Tick, Render (Some 7), Click]) = 1 \<and>
   \<not> timerPending (run ''ab```'' (Some 7) [Tick, Render (Some 7), Click]) \<and>
   step ''ab```'' (run ''ab```'' (Some 7) [Tick, Render (Some 7), Click]) Tick
     = run ''ab```'' (Some 7) [Tick, Render (Some 7), Click] \<and>
   completions (step ''ab```'' (run ''ab```'' (Some 7) [Tick, Render (Some 7), Click])
      (Render (Some 8))) = 2 \<and>
   completions (run ''ab```'' (Some 7) [Tick]) = 0"
proof -
  let ?evs = "[Tick, Render (Some 7), Click]"
  have c: "isComplete (run ''ab```'' (Some 7) ?evs)" by code_simp
  have s: "same_onComplete (Some 7) ?evs" by code_simp
  have o: "onComplete (run ''ab```'' (Some 7) ?evs) = Some 7" by code_simp
  have n: "\<not> isComplete (run ''ab```'' (Some 7) [Tick])" by code_simp
  from c s o force_complete_idempotent [of "''ab```''" "Some 7" ?evs "Some 8"]
  have 1: "step ''ab```'' (run ''ab```'' (Some 7) ?evs) Click = run ''ab```'' (Some 7) ?evs \<and>
     completions (run ''ab```'' (Some 7) ?evs) = 1 \<and>
     \<not> timerPending (run ''ab```'' (Some 7) ?evs) \<and>
     step ''ab```'' (run ''ab```'' (Some 7) ?evs) Tick = run ''ab```'' (Some 7) ?evs \<and>
     completions (step ''ab```'' (run ''ab```'' (Some 7) ?evs) (Render (Some 8))) = 2"
    by (simp del: step.simps)
  from n force_complete_idempotent [of "''ab```''" "Some 7" "[Tick]"]
  have 2: "completions (run ''ab```'' (Some 7) [Tick]) = 0" by (simp del: step.simps)
  from c s 1 2 show ?thesis by (simp del: step.simps)
qed

text \<open>
  The claim C10 as stated fails where it says that the completion notification fires
  exactly once per message: the effect depends on \<open>onComplete\<close>, so after completion a
  render with another function runs the completed branch again and calls it; and with no
  \<open>onComplete\<close> nothing is called.
\<close>

theorem onComplete_called_twice:
  "isComplete (run ''ab'' (Some 0) [Click]) \<and>
   completions (run ''ab'' (Some 0) [Click]) = 1 \<and>
   completions (run ''ab'' (Some 0) [Click, Render (Some 1)]) = 2 \<and>
   isComplete (run ''ab'' None [Click]) \<and>
   completions (run ''ab'' None [Click]) = 0"
  by code_simp

text \<open>
  Claim C3. In a state with \<open>currentIndex < content.length\<close>, one run of the timeout
  callback does this: when the rest of the text from the index starts with three backticks
  and \<open>j\<close> is the first offset \<open>\<ge> 3\<close> in the rest where three backticks occur again, the
  index advances by \<open>j + 3\<close>, through the end of that closing delimiter, and that whole
  block is appended to the displayed text; when the rest does not start with three
  backticks, or no three backticks occur at an offset \<open>\<ge> 3\<close>, the index advances by
  \<open>min(3, content.length - currentIndex)\<close> and those characters are appended.
\<close>

theorem reveal_step:
  assumes "currentIndex st < length fullText"
  shows "(startsWith (slice_from fullText (currentIndex st)) fence \<and> 3 \<le> j \<and>
          startsWith (slice_from (slice_from fullText (currentIndex st)) j) fence \<and>
          (\<forall>i. 3 \<le> i \<and> i < j \<longrightarrow>
             \<not> startsWith (slice_from (slice_from fullText (currentIndex st)) i) fence)
          \<longrightarrow> currentIndex (timeout_callback fullText st) = currentIndex st + j + 3 \<and>
              displayedContent (timeout_callback fullText st)
                = displayedContent st @ slice fullText (currentIndex st) (currentIndex st + j + 3)) \<and>
         (\<not> (startsWith (slice_from fullText (currentIndex st)) fence \<and>
             (\<exists>j\<ge>3. startsWith (slice_from (slice_from fullText (currentIndex st)) j) fence))
          \<longrightarrow> currentIndex (timeout_callback fullText st)
                = currentIndex st + min 3 (length fullText - currentIndex st) \<and>
              displayedContent (timeout_callback fullText st)
                = displayedContent st @ slice fullText (currentIndex st)
                    (currentIndex st + min 3 (length fullText - currentIndex st)))"
proof -
  let ?cur = "currentIndex st"
  let ?r = "drop ?cur fullText"
  have A: "jump fullText ?cur = j + 3"
    if p: "prefix fence ?r" and j: "3 \<le> j" and q: "prefix fence (drop j ?r)"
      and m: "\<forall>i. 3 \<le> i \<and> i < j \<longrightarrow> \<not> prefix fence (drop i ?r)"
  proof -
    from prefix_fence_len [OF p] have l: "3 \<le> length ?r" .
    have "indexOf ?r fence 3 = Some j"
      using j q l m by (intro indexOf_least) blast+
    with p show ?thesis by (simp add: jump_def)
  qed
  have B: "jump fullText ?cur = min 3 (length fullText - ?cur)"
    if n: "\<not> (prefix fence ?r \<and> (\<exists>j\<ge>3. prefix fence (drop j ?r)))"
  proof (cases "prefix fence ?r")
    case False
    then show ?thesis by (simp add: jump_def)
  next
    case True
    with n have none: "\<forall>j\<ge>3. \<not> prefix fence (drop j ?r)" by blast
    have "indexOf ?r fence 3 = None"
    proof (cases "indexOf ?r fence 3")
      case None then show ?thesis .
    next
      case (Some e)
      from prefix_fence_len [OF True] have "3 \<le> length ?r" .
      from indexOf_Some(1,2) [OF Some this] none show ?thesis by blast
    qed
    with True show ?thesis by (simp add: jump_def)
  qed
  from A B show ?thesis
    unfolding timeout_callback_eq [OF assms] startsWith_def slice_from_def slice_def
    by simp
qed

theorem reveal_step_witness:
  "currentIndex (timeout_callback
      ''Hi\<newline>```python\<newline>print(1)\<newline>```\<newline>Bye''
      (run ''Hi\<newline>```python\<newline>print(1)\<newline>```\<newline>Bye'' None [Tick])) = 25 \<and>
   currentIndex (timeout_callback
      ''Hi\<newline>```python\<newline>print(1)\<newline>```\<newline>Bye''
      (run ''Hi\<newline>```python\<newline>print(1)\<newline>```\<newline>Bye'' None [])) = 3"
proof -
  let ?s = "''Hi\<newline>```python\<newline>print(1)\<newline>```\<newline>Bye''"
  let ?st = "run ?s None [Tick]"
  let ?r = "slice_from ?s 3"
  have cur: "currentIndex ?st = 3" by code_simp
  have lt: "currentIndex ?st < length ?s" by code_simp
  have io: "indexOf ?r fence 3 = Some 19" by code_simp
  have len: "3 \<le> length ?r" by code_simp
  have p: "startsWith ?r fence" by code_simp
  have q: "startsWith (slice_from ?r 19) fence" by code_simp
  have m: "\<forall>i. 3 \<le> i \<and> i < 19 \<longrightarrow> \<not> startsWith (slice_from ?r i) fence"
    using indexOf_Some(3) [OF io len] by (simp add: startsWith_def slice_from_def)
  from reveal_step [OF lt, of 19] p q m cur
  have one: "currentIndex (timeout_callback ?s ?st) = 25" by simp
  let ?st0 = "run ?s None []"
  have cur0: "currentIndex ?st0 = 0" by code_simp
  have lt0: "currentIndex ?st0 < length ?s" by code_simp
  have n0: "\<not> startsWith (slice_from ?s 0) fence" by code_simp
  from reveal_step [OF lt0, of 0] n0 cur0
  have two: "currentIndex (timeout_callback ?s ?st0) = 3" by simp
  from one two show ?thesis by simp
qed

section \<open>Properties of the parser\<close>

subsection \<open>The pattern without backtracking\<close>

declare loop.simps [simp del]

lemma is_word_nl [simp]: "\<not> is_word nl"
  by (simp add: is_word_def nl_def)

lemma is_word_backtick [simp]: "\<not> is_word (CHR 0x60)"
  by (simp add: is_word_def)

lemma fence_eq: "fence = [CHR 0x60, CHR 0x60, CHR 0x60]"
  by (simp add: fence_def)

lemma lazy_body_Some:
  "lazy_body u = Some b \<Longrightarrow>
     prefix (b @ fence) u \<and> (\<forall>i<length b. \<not> prefix fence (drop i u))"
proof (induction u arbitrary: b)
  case Nil
  then show ?case by simp
next
  case (Cons c cs)
  show ?case
  proof (cases "prefix fence (c # cs)")
    case True
    with Cons.prems show ?thesis by simp
  next
    case False
    with Cons.prems obtain b' where l: "lazy_body cs = Some b'" and b: "b = c # b'" by auto
    from Cons.IH [OF l] have p: "prefix (b' @ fence) cs"
      and m: "\<forall>i<length b'. \<not> prefix fence (drop i cs)" by auto
    have "\<not> prefix fence (drop i (c # cs))" if "i < length b" for i
    proof (cases i)
      case 0
      with False show ?thesis by simp
    next
      case (Suc i')
      with that b m show ?thesis by simp
    qed
    with p b show ?thesis by simp
  qed
qed

lemma lazy_body_first:
  "prefix fence (drop n u) \<Longrightarrow> (\<forall>i<n. \<not> prefix fence (drop i u)) \<Longrightarrow>
     lazy_body u = Some (take n u)"
proof (induction u arbitrary: n)
  case Nil
  then show ?case by (simp add: fence_eq)
next
  case (Cons c cs)
  show ?case
  proof (cases n)
    case 0
    with Cons.prems show ?thesis by simp
  next
    case (Suc n')
    with Cons.prems have np: "\<not> prefix fence (c # cs)" by force
    from Cons.prems Suc have p: "prefix fence (drop n' cs)" by simp
    have "\<forall>i<n'. \<not> prefix fence (drop i cs)"
      using Cons.prems(2) Suc by (metis Suc_less_eq drop_Suc_Cons)
    from Cons.IH [OF p this] np Suc show ?thesis by simp
  qed
qed

lemma lazy_body_None: "lazy_body u = None \<Longrightarrow> \<not> prefix fence (drop i u)"
proof (induction u arbitrary: i)
  case Nil
  then show ?case by (simp add: fence_eq)
next
  case (Cons c cs)
  from Cons.prems have np: "\<not> prefix fence (c # cs)" and r: "lazy_body cs = None"
    by (auto split: if_splits)
  show ?case
  proof (cases i)
    case 0
    with np show ?thesis by simp
  next
    case (Suc i')
    with Cons.IH [OF r, of i'] show ?thesis by simp
  qed
qed

lemma after_tag_word: "m < length (takeWhile is_word t) \<Longrightarrow> after_tag (drop m t) = None"
proof -
  assume m: "m < length (takeWhile is_word t)"
  then have lt: "m < length t" using length_takeWhile_le [of is_word t] by simp
  from m have "is_word (t ! m)"
    by (metis nth_mem set_takeWhileD takeWhile_nth)
  then have "t ! m \<noteq> nl" by auto
  moreover from lt have "drop m t = t ! m # drop (Suc m) t" by (simp add: Cons_nth_drop_Suc)
  ultimately show ?thesis by (simp add: after_tag_def)
qed

lemma tag_alts_fail: "(\<forall>m\<le>k. after_tag (drop m t) = None) \<Longrightarrow> tag_alts k t = None"
  by (induction k) auto

lemma tag_alts_max:
  "tag_alts (length (takeWhile is_word t)) t =
     map_option (Pair (if takeWhile is_word t = [] then None else Some (takeWhile is_word t)))
       (after_tag (dropWhile is_word t))"
proof (cases "length (takeWhile is_word t)")
  case 0
  then have "dropWhile is_word t = t"
    by (metis append_Nil length_0_conv takeWhile_dropWhile_id)
  with 0 show ?thesis by simp
next
  case (Suc n)
  have d: "drop (Suc n) t = dropWhile is_word t" using Suc
    by (metis dropWhile_eq_drop)
  have t: "take (Suc n) t = takeWhile is_word t" using Suc
    by (metis takeWhile_eq_take)
  have ne: "takeWhile is_word t \<noteq> []" using Suc by auto
  show ?thesis
  proof (cases "after_tag (dropWhile is_word t)")
    case (Some b)
    with Suc d t ne show ?thesis by simp
  next
    case None
    have "\<forall>m\<le>n. after_tag (drop m t) = None"
      using after_tag_word [of _ t] Suc by simp
    from tag_alts_fail [OF this] None Suc d show ?thesis by simp
  qed
qed

lemma match_here_alt:
  "match_here u =
     (case header u of
        None \<Rightarrow> None
      | Some (w, r) \<Rightarrow>
          map_option (\<lambda>b. (fence @ w @ [nl] @ b @ fence, if w = [] then None else Some w, b))
            (lazy_body r))"
proof (cases "prefix fence u")
  case False
  then show ?thesis by (simp add: match_here_def header_def)
next
  case True
  let ?t = "drop 3 u"
  let ?w = "takeWhile is_word ?t"
  show ?thesis
  proof (cases "dropWhile is_word ?t")
    case Nil
    have "tag_alts (length ?w) ?t = None"
      unfolding tag_alts_max Nil after_tag_def by simp
    moreover from True have "header u = None" unfolding header_def Nil by simp
    ultimately show ?thesis using True unfolding match_here_def by simp
  next
    case (Cons c r)
    show ?thesis
    proof (cases "c = nl")
      case False
      then have "tag_alts (length ?w) ?t = None"
        unfolding tag_alts_max Cons after_tag_def by simp
      moreover from False True have "header u = None" unfolding header_def Cons by simp
      ultimately show ?thesis using True unfolding match_here_def by simp
    next
      case nl: True
      from nl have ta: "tag_alts (length ?w) ?t =
          map_option (Pair (if ?w = [] then None else Some ?w)) (lazy_body r)"
        unfolding tag_alts_max Cons after_tag_def by simp
      from nl True have h: "header u = Some (?w, r)" unfolding header_def Cons by simp
      show ?thesis
        using True unfolding match_here_def Let_def ta h
        by (cases "lazy_body r") simp_all
    qed
  qed
qed

lemma header_Some:
  "header u = Some (w, r) \<Longrightarrow> u = fence @ w @ nl # r \<and> (\<forall>c\<in>set w. is_word c)"
proof -
  assume h: "header u = Some (w, r)"
  then have p: "prefix fence u" by (simp add: header_def split: if_splits)
  then have u: "u = fence @ drop 3 u"
    by (metis append_eq_conv_conj fence_eq length_Cons list.size(3) numeral_3_eq_3 prefixE)
  from h p have d: "dropWhile is_word (drop 3 u) = nl # r" and w: "w = takeWhile is_word (drop 3 u)"
    by (auto simp: header_def split: list.splits if_splits)
  have "drop 3 u = w @ nl # r" using d w takeWhile_dropWhile_id [of is_word "drop 3 u"] by simp
  with u have "u = fence @ w @ nl # r" by simp
  moreover have "\<forall>c\<in>set w. is_word c" using w by (auto dest: set_takeWhileD)
  ultimately show ?thesis by simp
qed

lemma header_intro:
  "\<forall>c\<in>set w. is_word c \<Longrightarrow> header (fence @ w @ nl # r) = Some (w, r)"
proof -
  assume w: "\<forall>c\<in>set w. is_word c"
  have t: "takeWhile is_word (w @ nl # r) = w" using w by (simp add: takeWhile_append2)
  have d: "dropWhile is_word (w @ nl # r) = nl # r" using w by (simp add: dropWhile_append2)
  have 3: "drop 3 (fence @ w @ nl # r) = w @ nl # r" by (simp add: fence_eq)
  show ?thesis unfolding header_def 3 t d by simp
qed

subsection \<open>The first match and the rest of the message\<close>

lemma match_here_Nil [simp]: "match_here [] = None"
  by (simp add: match_here_def fence_eq)

lemma search_Some:
  "regex_search u k = Some r \<Longrightarrow>
     \<exists>i. index r = k + i \<and> match_here (drop i u) = Some (m0 r, m1 r, m2 r) \<and>
         (\<forall>j<i. match_here (drop j u) = None)"
proof (induction u k rule: regex_search.induct)
  case (1 k)
  then show ?case by simp
next
  case (2 c cs k)
  show ?case
  proof (cases "match_here (c # cs)")
    case (Some x)
    with "2.prems" have "index r = k + 0 \<and> match_here (drop 0 (c # cs)) = Some (m0 r, m1 r, m2 r)"
      by (auto split: prod.splits)
    then show ?thesis by blast
  next
    case None
    with "2.prems" have "regex_search cs (Suc k) = Some r" by simp
    from "2.IH" [OF None this] obtain i where i: "index r = Suc k + i"
      "match_here (drop i cs) = Some (m0 r, m1 r, m2 r)"
      "\<forall>j<i. match_here (drop j cs) = None" by blast
    have "match_here (drop j (c # cs)) = None" if "j < Suc i" for j
      using that None i(3) by (cases j) simp_all
    with i(1,2) have "index r = k + Suc i \<and>
        match_here (drop (Suc i) (c # cs)) = Some (m0 r, m1 r, m2 r) \<and>
        (\<forall>j<Suc i. match_here (drop j (c # cs)) = None)" by simp
    then show ?thesis by blast
  qed
qed

lemma search_None: "regex_search u k = None \<Longrightarrow> match_here (drop i u) = None"
proof (induction u k arbitrary: i rule: regex_search.induct)
  case (1 k)
  then show ?case by simp
next
  case (2 c cs k)
  from "2.prems" have n: "match_here (c # cs) = None" and r: "regex_search cs (Suc k) = None"
    by (auto split: option.splits)
  show ?case
  proof (cases i)
    case 0
    with n show ?thesis by simp
  next
    case (Suc i')
    with "2.IH" [OF n r, of i'] show ?thesis by simp
  qed
qed

lemma search_first:
  "match_here (drop i u) = Some (a, g, b) \<Longrightarrow> (\<forall>j<i. match_here (drop j u) = None) \<Longrightarrow>
     regex_search u k = Some \<lparr>index = k + i, m0 = a, m1 = g, m2 = b\<rparr>"
proof (induction u k arbitrary: i rule: regex_search.induct)
  case (1 k)
  then show ?case by simp
next
  case (2 c cs k)
  show ?case
  proof (cases i)
    case 0
    with "2.prems" show ?thesis by simp
  next
    case (Suc i')
    from "2.prems"(2) Suc have n: "match_here (c # cs) = None" by force
    from "2.prems"(1) Suc have m: "match_here (drop i' cs) = Some (a, g, b)" by simp
    have "\<forall>j<i'. match_here (drop j cs) = None"
      using "2.prems"(2) Suc by (metis Suc_less_eq drop_Suc_Cons)
    from "2.IH" [OF n m this] n Suc show ?thesis by simp
  qed
qed

lemma match_here_within:
  assumes "match_here u = Some (a, g, b)"
  shows "prefix a u" and "7 \<le> length a"
proof -
  from assms obtain w r where h: "header u = Some (w, r)"
    by (auto simp: match_here_alt split: option.splits)
  with assms have l: "lazy_body r = Some b" and a: "a = fence @ w @ [nl] @ b @ fence"
    by (auto simp: match_here_alt)
  from header_Some [OF h] have u: "u = fence @ w @ nl # r" by simp
  from lazy_body_Some [OF l] have "prefix (b @ fence) r" by simp
  then have "prefix (fence @ w @ nl # b @ fence) (fence @ w @ nl # r)" by simp
  with a u show "prefix a u" by simp
  from a show "7 \<le> length a" by (simp add: fence_eq)
qed

lemma loop_acc: "loop m k parts = parts @ loop m k []"
proof (induction "length m - k" arbitrary: k parts rule: less_induct)
  case less
  show ?case
  proof (cases "exec m k")
    case None
    then show ?thesis by (simp add: loop.simps [of m k])
  next
    case (Some r)
    let ?e = "index r + length (m0 r)"
    from exec_bounds [OF Some] have "length m - ?e < length m - k" by simp
    note ih = less [OF this]
    show ?thesis
      unfolding loop.simps [of m k parts] loop.simps [of m k "[]"] Some option.case
      by (subst ih, subst (2) ih) simp
  qed
qed

lemma regex_search_shift:
  "regex_search u k = map_option (\<lambda>r. r\<lparr>index := index r + k\<rparr>) (regex_search u 0)"
proof (induction u arbitrary: k)
  case Nil
  then show ?case by simp
next
  case (Cons c cs)
  show ?case
  proof (cases "match_here (c # cs)")
    case (Some x)
    then show ?thesis by (simp split: prod.splits)
  next
    case None
    have "regex_search (c # cs) k = regex_search cs (Suc k)" using None by simp
    also have "\<dots> = map_option (\<lambda>r. r\<lparr>index := index r + Suc k\<rparr>) (regex_search cs 0)"
      by (rule Cons.IH)
    finally have a: "regex_search (c # cs) k =
        map_option (\<lambda>r. r\<lparr>index := index r + Suc k\<rparr>) (regex_search cs 0)" .
    have "regex_search (c # cs) 0 = regex_search cs (Suc 0)" using None by simp
    also have "\<dots> = map_option (\<lambda>r. r\<lparr>index := index r + Suc 0\<rparr>) (regex_search cs 0)"
      by (rule Cons.IH)
    finally have b: "regex_search (c # cs) 0 =
        map_option (\<lambda>r. r\<lparr>index := index r + Suc 0\<rparr>) (regex_search cs 0)" .
    show ?thesis unfolding a b by (simp add: option.map_comp comp_def)
  qed
qed

lemma loop_drop: "k \<le> length m \<Longrightarrow> loop m k [] = loop (drop k m) 0 []"
proof (induction "length m - k" arbitrary: m k rule: less_induct)
  case less
  let ?u = "drop k m"
  from less.prems have ek: "exec m k = regex_search ?u k" by (simp add: exec_def)
  have e0: "exec ?u 0 = regex_search ?u 0" by (simp add: exec_def)
  show ?case
  proof (cases "regex_search ?u 0")
    case None
    with regex_search_shift [of ?u k] have "regex_search ?u k = None" by simp
    with ek have nk: "exec m k = None" by simp
    from None e0 have n0: "exec ?u 0 = None" by simp
    have a: "slice_from ?u 0 = slice_from m k" by (simp add: slice_from_def)
    have b: "(0 < length ?u) = (k < length m)" by simp
    show ?thesis
      unfolding loop.simps [of m k "[]"] loop.simps [of ?u 0 "[]"] nk n0 option.case a b ..
  next
    case (Some r0)
    let ?r = "r0\<lparr>index := index r0 + k\<rparr>"
    from Some regex_search_shift [of ?u k] have sk: "exec m k = Some ?r" by (simp add: ek)
    from Some have s0: "exec ?u 0 = Some r0" by (simp add: e0)
    let ?f = "index r0 + length (m0 r0)"
    let ?e = "index ?r + length (m0 ?r)"
    have e: "?e = ?f + k" by simp
    from exec_bounds [OF s0] have b0: "7 \<le> length (m0 r0)" "?f \<le> length ?u" by auto
    from exec_bounds [OF sk] have bk: "?e \<le> length m" by auto
    have "length m - ?e < length m - k" using b0 bk less.prems by simp
    from less.hyps [OF this bk] have A: "loop m ?e [] = loop (drop ?e m) 0 []" .
    have "length ?u - ?f < length m - k" using b0 by simp
    from less.hyps [OF this b0(2)] have B: "loop ?u ?f [] = loop (drop ?f ?u) 0 []" .
    have C: "drop ?f ?u = drop ?e m" by (simp add: ac_simps)
    have D: "slice m k (index ?r) = slice ?u 0 (index r0)" by (simp add: slice_def)
    show ?thesis
      unfolding loop.simps [of m k "[]"] loop.simps [of ?u 0 "[]"] sk s0 option.case
      apply (subst loop_acc)
      apply (subst (2) loop_acc)
      unfolding A B C D
      by simp
  qed
qed

lemma parseMessage_nomatch:
  assumes "\<And>i. match_here (drop i u) = None"
  shows "parseMessage u = (if u = [] then [] else [text_part u])"
proof -
  have "regex_search u 0 = None"
  proof (cases "regex_search u 0")
    case None then show ?thesis .
  next
    case (Some r)
    from search_Some [OF Some] assms show ?thesis by auto
  qed
  then show ?thesis
    by (simp add: parseMessage_def loop.simps [of u 0] exec_def slice_from_def)
qed

lemma parseMessage_match:
  assumes "match_here (drop i u) = Some (a, g, b)"
    and "\<And>j. j < i \<Longrightarrow> match_here (drop j u) = None"
  shows "parseMessage u =
     (if 0 < i then [text_part (take i u)] else [])
     @ code_part (trim b) (or_plaintext g) # parseMessage (drop (i + length a) u)"
proof -
  let ?r = "\<lparr>index = 0 + i, m0 = a, m1 = g, m2 = b\<rparr>"
  from search_first [OF assms(1), of 0] assms(2) have s: "exec u 0 = Some ?r"
    by (simp add: exec_def)
  from exec_bounds [OF s] have le: "i + length a \<le> length u" by simp
  show ?thesis
    unfolding parseMessage_def loop.simps [of u 0 "[]"] s option.case
    apply (subst loop_acc)
    unfolding loop_drop [OF le, symmetric]
    by (simp add: slice_def loop_drop [of "i + length a" u] le)
qed

lemma first_match_cases:
  obtains (nomatch) "\<And>i. match_here (drop i u) = None"
  | (match) i a g b where "match_here (drop i u) = Some (a, g, b)"
      and "\<And>j. j < i \<Longrightarrow> match_here (drop j u) = None"
proof (cases "regex_search u 0")
  case None
  from search_None [OF None] nomatch show ?thesis by blast
next
  case (Some r)
  from search_Some [OF Some] match show ?thesis by auto
qed

subsection \<open>Text appended to a message\<close>

lemma prefix_fence_append: "3 \<le> length x \<Longrightarrow> prefix fence (x @ y) = prefix fence x"
proof -
  assume "3 \<le> length x"
  then obtain c1 c2 c3 x' where "x = c1 # c2 # c3 # x'"
    by (metis Suc_le_length_iff numeral_3_eq_3)
  then show ?thesis by (simp add: fence_eq)
qed

lemma length_fence [simp]: "length fence = 3"
  by (simp add: fence_eq)

lemma prefix_fence_drop_append:
  "p + 3 \<le> length x \<Longrightarrow> prefix fence (drop p (x @ y)) = prefix fence (drop p x)"
  using prefix_fence_append [of "drop p x" y] by simp

lemma prefix_fence_len3: "prefix fence u \<Longrightarrow> 3 \<le> length u"
  using prefix_length_le [of fence u] by (simp add: fence_eq)

lemma match_here_fences:
  assumes "match_here u = Some (a, g, b)"
  shows "prefix fence u" and "prefix fence (drop (length a - 3) u)" and "7 \<le> length a"
    and "length a \<le> length u"
proof -
  from assms obtain w r where h: "header u = Some (w, r)"
    by (auto simp: match_here_alt split: option.splits)
  with assms have l: "lazy_body r = Some b" and a: "a = fence @ w @ [nl] @ b @ fence"
    by (auto simp: match_here_alt)
  from header_Some [OF h] have u: "u = fence @ w @ nl # r" by simp
  from lazy_body_Some [OF l] obtain z where r: "r = b @ fence @ z" by (auto elim: prefixE)
  from u show "prefix fence u" by (metis prefixI)
  from a have la: "length a - 3 = length (fence @ w @ [nl] @ b)" by (simp add: fence_eq)
  from u r have "u = (fence @ w @ [nl] @ b) @ fence @ z" by simp
  then have "drop (length a - 3) u = fence @ z" unfolding la by (metis append_eq_conv_conj)
  then show "prefix fence (drop (length a - 3) u)" by simp
  from a show "7 \<le> length a" by (simp add: fence_eq)
  from a u r show "length a \<le> length u" by simp
qed

lemma lazy_body_append:
  assumes "lazy_body r = Some b"
  shows "lazy_body (r @ t) = Some b"
proof -
  from lazy_body_Some [OF assms] have p: "prefix (b @ fence) r"
    and m: "\<forall>i<length b. \<not> prefix fence (drop i r)" by auto
  from p obtain z where r: "r = b @ fence @ z" by (auto elim: prefixE)
  have 1: "prefix fence (drop (length b) (r @ t))" using r by simp
  have 2: "\<forall>i<length b. \<not> prefix fence (drop i (r @ t))"
  proof (intro allI impI)
    fix i assume i: "i < length b"
    with r have "i + 3 \<le> length r" by (simp add: fence_eq)
    from prefix_fence_drop_append [OF this] m i show "\<not> prefix fence (drop i (r @ t))" by simp
  qed
  from lazy_body_first [OF 1 2] r show ?thesis by simp
qed

lemma match_here_append:
  assumes "match_here v = Some x"
  shows "match_here (v @ t) = Some x"
proof -
  from assms obtain w r where h: "header v = Some (w, r)"
    by (auto simp: match_here_alt split: option.splits)
  with assms obtain b where l: "lazy_body r = Some b"
    and x: "x = (fence @ w @ [nl] @ b @ fence, if w = [] then None else Some w, b)"
    by (auto simp: match_here_alt)
  from header_Some [OF h] have v: "v = fence @ w @ nl # r" and w: "\<forall>c\<in>set w. is_word c"
    by auto
  from v have "v @ t = fence @ w @ nl # (r @ t)" by simp
  with header_intro [OF w, of "r @ t"] have "header (v @ t) = Some (w, r @ t)" by simp
  with lazy_body_append [OF l, of t] x show ?thesis by (simp add: match_here_alt)
qed

lemma no_fence_in_header:
  assumes w: "\<forall>c\<in>set w. is_word c" and p: "1 \<le> p" "p < length (fence @ w @ [nl])"
  shows "\<not> prefix fence (drop p (fence @ w @ nl # r))"
proof -
  obtain c y where cy: "w @ nl # r = c # y" and c: "c \<noteq> CHR 0x60"
  proof (cases w)
    case Nil
    then have "w @ nl # r = nl # r" "nl \<noteq> CHR 0x60" by (simp_all add: nl_def)
    then show ?thesis using that by blast
  next
    case (Cons c w')
    with w have "is_word c" by simp
    then have "c \<noteq> CHR 0x60" by auto
    with Cons that show ?thesis by simp
  qed
  consider "p = 1" | "p = 2" | "3 \<le> p" using p(1) by linarith
  then show ?thesis
  proof cases
    case 1
    then show ?thesis using cy c by (simp add: fence_eq)
  next
    case 2
    then show ?thesis using cy c by (simp add: fence_eq numeral_2_eq_2)
  next
    case 3
    define k where "k = p - 3"
    from 3 p(2) have k: "k \<le> length w" "p = 3 + k" by (simp_all add: k_def fence_eq)
    have d: "drop p (fence @ w @ nl # r) = drop k w @ nl # r"
      using k by (simp add: drop_append)
    obtain c' y' where "drop k w @ nl # r = c' # y'" and "c' \<noteq> CHR 0x60"
    proof (cases "drop k w")
      case Nil
      then have "drop k w @ nl # r = nl # r" "nl \<noteq> CHR 0x60" by (simp_all add: nl_def)
      then show ?thesis using that by blast
    next
      case (Cons c' w')
      then have "c' \<in> set w" by (metis in_set_dropD list.set_intros(1))
      with w have "is_word c'" by simp
      then have "c' \<noteq> CHR 0x60" by auto
      with Cons that show ?thesis by simp
    qed
    then show ?thesis unfolding d by (simp add: fence_eq)
  qed
qed

lemma nomatch_append:
  assumes none: "match_here v = None" and q: "1 \<le> q"
    and later: "match_here (drop q v) = Some (a, g, b)"
  shows "match_here (v @ t) = None"
proof (rule ccontr)
  assume "match_here (v @ t) \<noteq> None"
  then obtain w r' where h: "header (v @ t) = Some (w, r')"
    by (auto simp: match_here_alt split: option.splits)
  from header_Some [OF h] have vt: "v @ t = fence @ w @ nl # r'"
    and w: "\<forall>c\<in>set w. is_word c" by auto
  let ?h = "length (fence @ w @ [nl])"
  note f = match_here_fences [OF later]
  from f(4) f(3) have qv: "q + 7 \<le> length v" by (cases "q \<le> length v") auto
  have "prefix fence (drop q (v @ t))"
    using prefix_fence_drop_append [of q v t] qv f(1) by simp
  then have "prefix fence (drop q (fence @ w @ nl # r'))" unfolding vt .
  with no_fence_in_header [OF w q, of r'] have "\<not> q < ?h" by blast
  then have qh: "?h \<le> q" by simp
  with qv have hv: "?h \<le> length v" by simp
  have "take ?h (v @ t) = fence @ w @ [nl]" unfolding vt by simp
  with hv have "take ?h v = fence @ w @ [nl]" by simp
  then have v: "v = fence @ w @ nl # drop ?h v"
    by (metis append.assoc append_Cons append_Nil append_take_drop_id)
  with header_intro [OF w, of "drop ?h v"] have hd: "header v = Some (w, drop ?h v)" by simp
  let ?c = "q + (length a - 3)"
  from f(2) have "prefix fence (drop ?c v)" by (simp add: add.commute)
  moreover have "drop ?c v = drop (?c - ?h) (drop ?h v)" using qh by simp
  ultimately have "prefix fence (drop (?c - ?h) (drop ?h v))" by simp
  with lazy_body_None [of "drop ?h v" "?c - ?h"] have "lazy_body (drop ?h v) \<noteq> None" by blast
  with hd have "match_here v \<noteq> None" by (auto simp: match_here_alt)
  with none show False by simp
qed

lemma first_match_append:
  assumes m: "match_here (drop i u) = Some (a, g, b)"
    and n: "\<And>j. j < i \<Longrightarrow> match_here (drop j u) = None"
  shows "match_here (drop i (u @ t)) = Some (a, g, b)"
    and "\<And>j. j < i \<Longrightarrow> match_here (drop j (u @ t)) = None"
proof -
  from match_here_fences(3,4) [OF m] have iu: "i + 7 \<le> length u"
    by (cases "i \<le> length u") auto
  then have "drop i (u @ t) = drop i u @ t" by simp
  with match_here_append [OF m, of t] show "match_here (drop i (u @ t)) = Some (a, g, b)" by simp
  fix j assume j: "j < i"
  with iu have d: "drop j (u @ t) = drop j u @ t" by simp
  from j have "drop (i - j) (drop j u) = drop i u" by simp
  with m have "match_here (drop (i - j) (drop j u)) = Some (a, g, b)" by simp
  from nomatch_append [where t = t and q = "i - j", OF n [OF j] _ this] j d
  show "match_here (drop j (u @ t)) = None" by simp
qed

lemma parseMessage_Nil [simp]: "parseMessage [] = []"
  by (simp add: parseMessage_nomatch)

lemma parseMessage_eq_Nil: "parseMessage u = [] \<Longrightarrow> u = []"
proof (cases u rule: first_match_cases)
  case nomatch
  assume "parseMessage u = []"
  with parseMessage_nomatch [of u] nomatch show ?thesis by (simp split: if_splits)
next
  case (match i a g b)
  assume "parseMessage u = []"
  with parseMessage_match [of i u a g b] match show ?thesis by simp
qed

lemma ptype_parts [simp]:
  "ptype (text_part c) = TextPart" "ptype (code_part c l) = CodePart"
  "content (text_part c) = c" "content (code_part c l) = c"
  "language (text_part c) = None" "language (code_part c l) = Some l"
  by (simp_all add: text_part_def code_part_def)

lemma parse_append:
  "a = [] \<or> ptype (last (parseMessage a)) = CodePart \<Longrightarrow>
     parseMessage (a @ t) = parseMessage a @ parseMessage t"
proof (induction "length a" arbitrary: a rule: less_induct)
  case less
  show ?case
  proof (cases "a = []")
    case True
    then show ?thesis by simp
  next
    case False
    with less.prems have lastc: "ptype (last (parseMessage a)) = CodePart" by simp
    show ?thesis
    proof (cases a rule: first_match_cases)
      case nomatch
      with parseMessage_nomatch [of a] False lastc show ?thesis by simp
    next
      case (match i x g b)
      let ?e = "i + length x"
      let ?a' = "drop ?e a"
      from match_here_fences(3,4) [OF match(1)] have ia: "?e \<le> length a" "7 \<le> length x"
        by (cases "i \<le> length a"; simp)+
      note pa = parseMessage_match [OF match]
      note fm = first_match_append [where t = t, OF match]
      have d: "drop ?e (a @ t) = ?a' @ t" using ia by simp
      note pat = parseMessage_match [OF fm, unfolded d]
      have tk: "take i (a @ t) = take i a" using ia by simp
      have short: "length ?a' < length a" using ia by simp
      have closed: "?a' = [] \<or> ptype (last (parseMessage ?a')) = CodePart"
      proof (cases "parseMessage ?a' = []")
        case True
        then show ?thesis using parseMessage_eq_Nil by blast
      next
        case False
        with pa lastc show ?thesis by simp
      qed
      from less.hyps [OF short closed] have "parseMessage (?a' @ t) = parseMessage ?a' @ parseMessage t" .
      with pa pat tk show ?thesis by simp
    qed
  qed
qed

subsection \<open>The parts of a message\<close>

lemma no_adjacent_code: "ptype c = CodePart \<Longrightarrow> no_adjacent_text (c # ps) = no_adjacent_text ps"
  by (cases ps) simp_all

lemma first_match_shorter:
  assumes "match_here (drop i u) = Some (a, g, b)"
  shows "i + length a \<le> length u" and "length (drop (i + length a) u) < length u"
    and "7 \<le> length a"
proof -
  from match_here_fences(3,4) [OF assms] show ia: "i + length a \<le> length u" and "7 \<le> length a"
    by (cases "i \<le> length u"; simp)+
  with match_here_fences(3) [OF assms] show "length (drop (i + length a) u) < length u" by simp
qed

lemma parts_invariant:
  "no_adjacent_text (parseMessage u) \<and>
   (\<forall>p\<in>set (parseMessage u). ptype p = TextPart \<longrightarrow> content p \<noteq> [])"
proof (induction "length u" arbitrary: u rule: less_induct)
  case less
  show ?case
  proof (cases u rule: first_match_cases)
    case nomatch
    then show ?thesis by (simp add: parseMessage_nomatch)
  next
    case (match i a g b)
    note s = first_match_shorter [OF match(1)]
    from less [OF s(2)] have ih: "no_adjacent_text (parseMessage (drop (i + length a) u))"
      "\<forall>p\<in>set (parseMessage (drop (i + length a) u)). ptype p = TextPart \<longrightarrow> content p \<noteq> []"
      by auto
    from s have ne: "0 < i \<Longrightarrow> take i u \<noteq> []" by auto
    define rest where "rest = parseMessage (drop (i + length a) u)"
    define front where "front = (if 0 < i then [text_part (take i u)] else [])"
    have pm: "parseMessage u = front @ code_part (trim b) (or_plaintext g) # rest"
      unfolding rest_def front_def by (rule parseMessage_match [OF match])
    have A: "no_adjacent_text (front @ code_part (trim b) (or_plaintext g) # rest)"
      using ih(1) [folded rest_def] by (simp add: front_def no_adjacent_code)
    have B: "\<forall>p\<in>set (front @ code_part (trim b) (or_plaintext g) # rest).
        ptype p = TextPart \<longrightarrow> content p \<noteq> []"
      using ih(2) [folded rest_def] ne by (auto simp: front_def)
    from A B show ?thesis by (simp only: pm)
  qed
qed

lemma or_plaintext_tag [simp]:
  "or_plaintext (if w = [] then None else Some w) = (if w = [] then ''plaintext'' else w)"
  by (simp add: or_plaintext_def)

lemma indexOf_first:
  assumes "indexOf t fence 0 = Some n"
  shows "lazy_body t = Some (take n t)" and "n + 3 \<le> length t"
proof -
  have p: "prefix fence (drop n t)" using indexOf_Some(2) [OF assms] by simp
  have m: "\<forall>i<n. \<not> prefix fence (drop i t)" using indexOf_Some(3) [OF assms] by simp
  from lazy_body_first [OF p m] show "lazy_body t = Some (take n t)" .
  from prefix_fence_len3 [OF p] show "n + 3 \<le> length t" by simp
qed

text \<open>
  Claim C8. For every input the parts returned by \<open>parseMessage\<close> have no two text
  parts next to each other and no text part with empty content; the empty string gives no
  part; three backticks, two newlines and three backticks give one code part with empty
  content and the language \<open>plaintext\<close>.
\<close>

theorem no_adjacent_or_empty_text:
  "no_adjacent_text (parseMessage s) \<and>
   (\<forall>p\<in>set (parseMessage s). ptype p = TextPart \<longrightarrow> content p \<noteq> []) \<and>
   parseMessage [] = [] \<and>
   parseMessage ''```\<newline>\<newline>```'' = [code_part [] ''plaintext'']"
proof -
  have "parseMessage ''```\<newline>\<newline>```'' = [code_part [] ''plaintext'']" by code_simp
  with parts_invariant [of s] show ?thesis by simp
qed

theorem no_adjacent_or_empty_text_witness:
  "no_adjacent_text (parseMessage ''a```\<newline>b```c'') \<and>
   list_all (\<lambda>p. content p \<noteq> []) (parseMessage ''a```\<newline>b```c'') \<and>
   parseMessage ''a```\<newline>b```c'' = [text_part ''a'', code_part ''b'' ''plaintext'', text_part ''c'']"
proof -
  have "parseMessage ''a```\<newline>b```c'' = [text_part ''a'', code_part ''b'' ''plaintext'', text_part ''c'']"
    by code_simp
  with no_adjacent_or_empty_text [of "''a```\<newline>b```c''"] show ?thesis by simp
qed

subsection \<open>Openers that do not start a block\<close>

lemma header_not_word:
  assumes "\<not> is_word c" and "c \<noteq> nl"
  shows "match_here (fence @ c # t) = None"
proof -
  have "drop 3 (fence @ c # t) = c # t" by (simp add: fence_eq)
  with assms have "header (fence @ c # t) = None" by (simp add: header_def)
  then show ?thesis by (simp add: match_here_alt)
qed







subsection \<open>The parts cover the message\<close>

lemma match_here_shape:
  assumes "match_here u = Some (a, g, b)"
  obtains w z where "u = a @ z" and "a = fence @ w @ [nl] @ b @ fence"
    and "\<forall>c\<in>set w. is_word c" and "g = (if w = [] then None else Some w)"
proof -
  from assms obtain w r where h: "header u = Some (w, r)"
    by (auto simp: match_here_alt split: option.splits)
  with assms have l: "lazy_body r = Some b" and a: "a = fence @ w @ [nl] @ b @ fence"
    and g: "g = (if w = [] then None else Some w)"
    by (auto simp: match_here_alt)
  from header_Some [OF h] have u: "u = fence @ w @ nl # r" and w: "\<forall>c\<in>set w. is_word c"
    by auto
  from lazy_body_Some [OF l] obtain z where r: "r = b @ fence @ z" by (auto elim: prefixE)
  from u r a have "u = a @ z" by simp
  with a w g that show thesis by blast
qed

lemma renders_code:
  assumes "\<forall>c\<in>set w. is_word c"
  shows "renders (code_part (trim b) (if w = [] then ''plaintext'' else w))
           (fence @ w @ [nl] @ b @ fence)"
proof -
  have "suffix fence (b @ fence)" by (rule suffixI) simp
  with header_intro [OF assms, of "b @ fence"]
  have "fenced_source (fence @ w @ [nl] @ b @ fence) = Some (w, b)"
    by (simp add: fenced_source_def)
  then show ?thesis by (simp add: renders_def)
qed

lemma round_trip_ex: "\<exists>srcs. concat srcs = u \<and> list_all2 renders (parseMessage u) srcs"
proof (induction "length u" arbitrary: u rule: less_induct)
  case less
  show ?case
  proof (cases u rule: first_match_cases)
    case nomatch
    show ?thesis
    proof (cases "u = []")
      case True
      then show ?thesis by simp
    next
      case False
      with parseMessage_nomatch [of u, OF nomatch]
      have "concat [u] = u \<and> list_all2 renders (parseMessage u) [u]"
        by (simp add: renders_def)
      then show ?thesis by blast
    qed
  next
    case (match i a g b)
    note s = first_match_shorter [OF match(1)]
    from less [OF s(2)] obtain srcs where c: "concat srcs = drop (i + length a) u"
      and r: "list_all2 renders (parseMessage (drop (i + length a) u)) srcs" by blast
    from match_here_shape [OF match(1)] obtain w z where z: "drop i u = a @ z"
      and a: "a = fence @ w @ [nl] @ b @ fence" and w: "\<forall>c\<in>set w. is_word c"
      and g: "g = (if w = [] then None else Some w)" by blast
    have u: "u = take i u @ a @ drop (i + length a) u"
      by (metis z append_eq_conv_conj append_take_drop_id drop_drop add.commute)
    let ?front = "if 0 < i then [take i u] else []"
    define rest where "rest = parseMessage (drop (i + length a) u)"
    have pm: "parseMessage u = map text_part ?front @ code_part (trim b) (or_plaintext g) # rest"
      unfolding rest_def using parseMessage_match [OF match] by simp
    have 1: "concat (?front @ a # srcs) = u" using c u by auto
    have rc: "renders (code_part (trim b) (or_plaintext g)) a"
      unfolding a g or_plaintext_tag by (rule renders_code [OF w])
    have rf: "list_all2 renders (map text_part ?front) ?front" by (simp add: renders_def)
    from r rc have "list_all2 renders (code_part (trim b) (or_plaintext g) # rest) (a # srcs)"
      by (simp add: rest_def)
    with rf have 2: "list_all2 renders (parseMessage u) (?front @ a # srcs)"
      unfolding pm by (rule list_all2_appendI)
    from 1 2 show ?thesis by blast
  qed
qed


text \<open>
  Claim C2. Every message is the concatenation, in order, of pieces that the parts
  render: the content of a text part is its piece, and the piece of a code part is a
  fenced block (three backticks, the tag, a newline, the inner text, three backticks)
  whose trimmed inner text is the content and whose tag, or \<open>plaintext\<close>, is the language.
\<close>

theorem parse_round_trip: "\<exists>srcs. concat srcs = s \<and> list_all2 renders (parseMessage s) srcs"
  by (rule round_trip_ex)

theorem parse_round_trip_witness:
  "\<exists>srcs. concat srcs = ''Hi\<newline>```python\<newline>print(1)\<newline>```\<newline>Bye'' \<and>
     list_all2 renders
       [text_part ''Hi\<newline>'', code_part ''print(1)'' ''python'', text_part ''\<newline>Bye''] srcs"
proof -
  have "parseMessage ''Hi\<newline>```python\<newline>print(1)\<newline>```\<newline>Bye'' =
     [text_part ''Hi\<newline>'', code_part ''print(1)'' ''python'', text_part ''\<newline>Bye'']"
    by code_simp
  with parse_round_trip [of "''Hi\<newline>```python\<newline>print(1)\<newline>```\<newline>Bye''"] show ?thesis by simp
qed

subsection \<open>Code parts come from complete blocks\<close>

lemma header_None_nomatch: "header u = None \<Longrightarrow> match_here u = None"
  by (simp add: match_here_alt)

lemma indexOf_0_first:
  assumes "lazy_body r = Some b"
  shows "indexOf (b @ fence) fence 0 = Some (length b)"
proof -
  from lazy_body_Some [OF assms] obtain z where r: "r = b @ fence @ z"
    and m: "\<forall>i<length b. \<not> prefix fence (drop i r)" by (auto elim: prefixE)
  have "\<not> prefix fence (drop i (b @ fence))" if "i < length b" for i
  proof -
    from that have "i + 3 \<le> length (b @ fence)" by simp
    from prefix_fence_drop_append [OF this, of z] m that r show ?thesis by simp
  qed
  then show ?thesis by (intro indexOf_least) simp_all
qed

lemma match_here_first_closing:
  assumes "match_here u = Some (a, g, b)"
  shows "indexOf (b @ fence) fence 0 = Some (length b)"
proof -
  from assms obtain w r where "header u = Some (w, r)" and "lazy_body r = Some b"
    by (auto simp: match_here_alt split: option.splits)
  from indexOf_0_first [OF this(2)] show ?thesis .
qed

lemma code_part_origin:
  "seg \<in> set (parseMessage u) \<Longrightarrow> ptype seg = CodePart \<Longrightarrow>
     \<exists>i a g b. match_here (drop i u) = Some (a, g, b) \<and>
        seg = code_part (trim b) (or_plaintext g)"
proof (induction "length u" arbitrary: u rule: less_induct)
  case less
  show ?case
  proof (cases u rule: first_match_cases)
    case nomatch
    from parseMessage_nomatch [of u, OF nomatch] less.prems show ?thesis
      by (cases "u = []") simp_all
  next
    case (match i a g b)
    note s = first_match_shorter [OF match(1)]
    define rest where "rest = parseMessage (drop (i + length a) u)"
    define front where "front = (if 0 < i then [text_part (take i u)] else [])"
    have pm: "parseMessage u = front @ code_part (trim b) (or_plaintext g) # rest"
      unfolding rest_def front_def by (rule parseMessage_match [OF match])
    have "\<forall>p\<in>set front. ptype p = TextPart" by (simp add: front_def)
    moreover from less.prems(1) have "seg \<in> set front \<or>
        seg = code_part (trim b) (or_plaintext g) \<or> seg \<in> set rest"
      unfolding pm by auto
    ultimately have "seg = code_part (trim b) (or_plaintext g) \<or> seg \<in> set rest"
      using less.prems(2) by force
    then have "seg = code_part (trim b) (or_plaintext g) \<or>
        seg \<in> set (parseMessage (drop (i + length a) u))"
      unfolding rest_def .
    then show ?thesis
    proof
      assume "seg = code_part (trim b) (or_plaintext g)"
      with match(1) show ?thesis by blast
    next
      assume "seg \<in> set (parseMessage (drop (i + length a) u))"
      from less.hyps [OF s(2) this less.prems(2)] obtain i' a' g' b' where
        m: "match_here (drop i' (drop (i + length a) u)) = Some (a', g', b')"
        and seg: "seg = code_part (trim b') (or_plaintext g')" by blast
      have "drop i' (drop (i + length a) u) = drop (i' + (i + length a)) u" by simp
      with m have "match_here (drop (i' + (i + length a)) u) = Some (a', g', b')" by simp
      with seg show ?thesis by blast
    qed
  qed
qed

lemma code_from_block:
  assumes "seg \<in> set (parseMessage u)" and "ptype seg = CodePart"
  shows "\<exists>pre w body post. u = pre @ fence @ w @ [nl] @ body @ fence @ post \<and>
        (\<forall>c\<in>set w. is_word c) \<and> content seg = trim body \<and>
        language seg = Some (if w = [] then ''plaintext'' else w) \<and>
        indexOf (body @ fence) fence 0 = Some (length body)"
proof -
  from code_part_origin [OF assms] obtain i a g b where
    m: "match_here (drop i u) = Some (a, g, b)"
    and seg: "seg = code_part (trim b) (or_plaintext g)" by blast
  from match_here_shape [OF m] obtain w z where z: "drop i u = a @ z"
    and a: "a = fence @ w @ [nl] @ b @ fence" and w: "\<forall>c\<in>set w. is_word c"
    and g: "g = (if w = [] then None else Some w)" by blast
  have "u = take i u @ drop i u" by simp
  with z a have u: "u = take i u @ fence @ w @ [nl] @ b @ fence @ z" by simp
  from seg have c: "content seg = trim b"
    "language seg = Some (if w = [] then ''plaintext'' else w)"
    unfolding g or_plaintext_tag by simp_all
  from u w c match_here_first_closing [OF m] show ?thesis by blast
qed

lemma displayed_prefix: "prefix (displayedContent (run fullText cb evs)) fullText"
  using reveal_inv_run [of fullText cb evs] by (simp add: reveal_inv_def take_is_prefix)

text \<open>
  Claim C4. Every code part of \<open>parseMessage p\<close> for a prefix \<open>p\<close> of \<open>s\<close> is the
  trimmed inner text of a complete fenced block that lies inside \<open>p\<close>, at the same place
  in \<open>s\<close>. So a code part that the revealer renders comes from a block whose closing
  delimiter is inside the displayed prefix of the full text.
\<close>

theorem code_part_from_complete_block:
  "(prefix p s \<and> seg \<in> set (parseMessage p) \<and> ptype seg = CodePart \<longrightarrow>
      (\<exists>pre w body post rest.
         p = pre @ fence @ w @ [nl] @ body @ fence @ post \<and>
         s = pre @ fence @ w @ [nl] @ body @ fence @ post @ rest \<and>
         (\<forall>c\<in>set w. is_word c) \<and> content seg = trim body \<and>
         language seg = Some (if w = [] then ''plaintext'' else w))) \<and>
   (renderContent (run fullText cb evs) = Some parts \<and> seg \<in> set parts \<and>
    ptype seg = CodePart \<longrightarrow>
      prefix (displayedContent (run fullText cb evs)) fullText \<and>
      (\<exists>pre w body post.
         displayedContent (run fullText cb evs) = pre @ fence @ w @ [nl] @ body @ fence @ post \<and>
         (\<forall>c\<in>set w. is_word c) \<and> content seg = trim body \<and>
         language seg = Some (if w = [] then ''plaintext'' else w)))"
proof (intro conjI impI)
  assume h: "prefix p s \<and> seg \<in> set (parseMessage p) \<and> ptype seg = CodePart"
  then obtain rest where s: "s = p @ rest" by (auto elim: prefixE)
  from h code_from_block [of seg p] obtain pre w body post where
    p: "p = pre @ fence @ w @ [nl] @ body @ fence @ post"
    and r: "\<forall>c\<in>set w. is_word c" "content seg = trim body"
      "language seg = Some (if w = [] then ''plaintext'' else w)" by blast
  from s p have "s = pre @ fence @ w @ [nl] @ body @ fence @ post @ rest" by simp
  with p r show "\<exists>pre w body post rest.
         p = pre @ fence @ w @ [nl] @ body @ fence @ post \<and>
         s = pre @ fence @ w @ [nl] @ body @ fence @ post @ rest \<and>
         (\<forall>c\<in>set w. is_word c) \<and> content seg = trim body \<and>
         language seg = Some (if w = [] then ''plaintext'' else w)" by blast
next
  assume "renderContent (run fullText cb evs) = Some parts \<and> seg \<in> set parts \<and>
    ptype seg = CodePart"
  then show "prefix (displayedContent (run fullText cb evs)) fullText"
    using displayed_prefix by simp
next
  assume h: "renderContent (run fullText cb evs) = Some parts \<and> seg \<in> set parts \<and>
    ptype seg = CodePart"
  then have "parts = parseMessage (displayedContent (run fullText cb evs))"
    by (auto simp: renderContent_def split: if_splits)
  with h code_from_block [of seg "displayedContent (run fullText cb evs)"]
  show "\<exists>pre w body post.
         displayedContent (run fullText cb evs) = pre @ fence @ w @ [nl] @ body @ fence @ post \<and>
         (\<forall>c\<in>set w. is_word c) \<and> content seg = trim body \<and>
         language seg = Some (if w = [] then ''plaintext'' else w)" by blast
qed

theorem code_part_from_complete_block_witness:
  "prefix ''x```\<newline>y```'' ''x```\<newline>y```z'' \<and>
   code_part ''y'' ''plaintext'' \<in> set (parseMessage ''x```\<newline>y```'') \<and>
   (\<exists>pre w body post rest.
      ''x```\<newline>y```'' = pre @ fence @ w @ [nl] @ body @ fence @ post \<and>
      ''x```\<newline>y```z'' = pre @ fence @ w @ [nl] @ body @ fence @ post @ rest \<and>
      (\<forall>c\<in>set w. is_word c) \<and> content (code_part ''y'' ''plaintext'') = trim body \<and>
      language (code_part ''y'' ''plaintext'') = Some (if w = [] then ''plaintext'' else w))"
proof -
  have a: "prefix ''x```\<newline>y```'' ''x```\<newline>y```z''" by simp
  have "parseMessage ''x```\<newline>y```'' = [text_part ''x'', code_part ''y'' ''plaintext'']"
    by code_simp
  then have b: "code_part ''y'' ''plaintext'' \<in> set (parseMessage ''x```\<newline>y```'')" by simp
  have c: "ptype (code_part ''y'' ''plaintext'') = CodePart" by simp
  from a b c code_part_from_complete_block [of "''x```\<newline>y```''" "''x```\<newline>y```z''" "code_part ''y'' ''plaintext''"]
  show ?thesis by blast
qed

subsection \<open>A block behind text\<close>

lemma parse_block_behind_text:
  assumes closed: "a = [] \<or> ptype (last (parseMessage a)) = CodePart"
    and noop: "list_all (\<lambda>j. header (drop j (pre @ fence @ w @ [nl] @ t)) = None)
                 [0..<length pre]"
    and w: "\<forall>c\<in>set w. is_word c" and n: "indexOf t fence 0 = Some n"
  shows "parseMessage (a @ pre @ fence @ w @ [nl] @ t) =
     parseMessage a @ (if pre = [] then [] else [text_part pre]) @
     code_part (trim (take n t)) (if w = [] then ''plaintext'' else w)
     # parseMessage (drop (n + 3) t)"
proof -
  let ?u = "pre @ fence @ w @ [nl] @ t"
  let ?x = "fence @ w @ [nl] @ take n t @ fence"
  note f = indexOf_first [OF n]
  have d: "drop (length pre) ?u = fence @ w @ nl # t" by simp
  from header_intro [OF w, of t] f(1)
  have m: "match_here (drop (length pre) ?u)
      = Some (?x, if w = [] then None else Some w, take n t)"
    unfolding d by (simp add: match_here_alt)
  have none: "match_here (drop j ?u) = None" if "j < length pre" for j
    using noop that by (intro header_None_nomatch) (simp add: list_all_iff)
  have lx: "length pre + length ?x = length (pre @ fence @ w @ [nl]) + (n + 3)"
    using f(2) by simp
  have "?u = (pre @ fence @ w @ [nl]) @ t" by simp
  then have e: "drop (length pre + length ?x) ?u = drop (n + 3) t"
    unfolding lx by (metis append_eq_conv_conj drop_drop add.commute)
  have "parseMessage ?u =
      (if 0 < length pre then [text_part (take (length pre) ?u)] else [])
      @ code_part (trim (take n t)) (or_plaintext (if w = [] then None else Some w))
      # parseMessage (drop (length pre + length ?x) ?u)"
    by (rule parseMessage_match [OF m none])
  then have "parseMessage ?u = (if pre = [] then [] else [text_part pre]) @
     code_part (trim (take n t)) (if w = [] then ''plaintext'' else w)
     # parseMessage (drop (n + 3) t)"
    unfolding e by simp
  with parse_append [OF closed, of ?u] show ?thesis by simp
qed

text \<open>
  Claim C6. The example with text before and after a \<open>python\<close> block gives the three
  parts of the specification, and a block behind text with two closing delimiters ends
  at the first. In general: after a message \<open>a\<close> that is empty or ends with a recognised
  block, and a text \<open>pre\<close> in which no opener starts (three backticks, word characters,
  a newline), an opener with the tag \<open>w\<close> followed by a text \<open>t\<close> in which three
  backticks occur first at index \<open>n\<close> gives the parts of \<open>a\<close>, the text \<open>pre\<close>, a code
  part for the text before index \<open>n\<close>, and the parts of what follows that first closing
  delimiter. And in every message every code part is the trimmed inner text of a block in
  which the closing delimiter is the first occurrence of three backticks after the
  opener's newline.
\<close>

theorem first_closing_fence_ends_block:
  "parseMessage ''Hi\<newline>```python\<newline>print(1)\<newline>```\<newline>Bye'' =
     [text_part ''Hi\<newline>'', code_part ''print(1)'' ''python'', text_part ''\<newline>Bye''] \<and>
   parseMessage ''Hi\<newline>```js\<newline>x```y``` z'' =
     [text_part ''Hi\<newline>'', code_part ''x'' ''js'', text_part ''y``` z''] \<and>
   ((a = [] \<or> ptype (last (parseMessage a)) = CodePart) \<and>
    list_all (\<lambda>j. header (slice_from (pre @ fence @ w @ [nl] @ t) j) = None)
      [0..<length pre] \<and>
    (\<forall>c\<in>set w. is_word c) \<and> indexOf t fence 0 = Some n \<longrightarrow>
      parseMessage (a @ pre @ fence @ w @ [nl] @ t) =
        parseMessage a @ (if pre = [] then [] else [text_part pre]) @
        code_part (trim (slice t 0 n)) (if w = [] then ''plaintext'' else w)
        # parseMessage (slice_from t (n + 3))) \<and>
   (seg \<in> set (parseMessage s) \<and> ptype seg = CodePart \<longrightarrow>
      (\<exists>before tag body after.
         s = before @ fence @ tag @ [nl] @ body @ fence @ after \<and>
         (\<forall>c\<in>set tag. is_word c) \<and> content seg = trim body \<and>
         indexOf (body @ fence) fence 0 = Some (length body)))"
proof -
  have 1: "parseMessage ''Hi\<newline>```python\<newline>print(1)\<newline>```\<newline>Bye'' =
     [text_part ''Hi\<newline>'', code_part ''print(1)'' ''python'', text_part ''\<newline>Bye'']"
    by code_simp
  have 2: "parseMessage ''Hi\<newline>```js\<newline>x```y``` z'' =
     [text_part ''Hi\<newline>'', code_part ''x'' ''js'', text_part ''y``` z'']"
    by code_simp
  have 3: "parseMessage (a @ pre @ fence @ w @ [nl] @ t) =
        parseMessage a @ (if pre = [] then [] else [text_part pre]) @
        code_part (trim (slice t 0 n)) (if w = [] then ''plaintext'' else w)
        # parseMessage (slice_from t (n + 3))"
    if "a = [] \<or> ptype (last (parseMessage a)) = CodePart"
      and "list_all (\<lambda>j. header (slice_from (pre @ fence @ w @ [nl] @ t) j) = None)
            [0..<length pre]"
      and "\<forall>c\<in>set w. is_word c" and "indexOf t fence 0 = Some n"
    using parse_block_behind_text [OF that(1) that(2) [unfolded slice_from_def] that(3,4)]
    by (simp add: slice_def slice_from_def)
  have 4: "\<exists>before tag body after.
         s = before @ fence @ tag @ [nl] @ body @ fence @ after \<and>
         (\<forall>c\<in>set tag. is_word c) \<and> content seg = trim body \<and>
         indexOf (body @ fence) fence 0 = Some (length body)"
    if "seg \<in> set (parseMessage s)" and "ptype seg = CodePart"
    using code_from_block [OF that] by blast
  from 1 2 3 4 show ?thesis by blast
qed

theorem first_closing_fence_ends_block_witness:
  "ptype (last (parseMessage ''```\<newline>q```'')) = CodePart \<and>
   list_all (\<lambda>j. header (slice_from (''Hi ``` x\<newline>'' @ fence @ ''js'' @ [nl] @ ''x```y``` z'') j) = None)
     [0..<length ''Hi ``` x\<newline>''] \<and>
   indexOf ''x```y``` z'' fence 0 = Some 1 \<and>
   parseMessage (''```\<newline>q```'' @ ''Hi ``` x\<newline>'' @ fence @ ''js'' @ [nl] @ ''x```y``` z'') =
     [code_part ''q'' ''plaintext'', text_part ''Hi ``` x\<newline>'', code_part ''x'' ''js'',
      text_part ''y``` z'']"
proof -
  have a: "ptype (last (parseMessage ''```\<newline>q```'')) = CodePart" by code_simp
  have h: "list_all (\<lambda>j. header (slice_from (''Hi ``` x\<newline>'' @ fence @ ''js'' @ [nl] @ ''x```y``` z'') j) = None)
     [0..<length ''Hi ``` x\<newline>'']" by code_simp
  have b: "\<forall>c\<in>set ''js''. is_word c" by code_simp
  have c: "indexOf ''x```y``` z'' fence 0 = Some 1" by code_simp
  have d: "parseMessage ''```\<newline>q```'' = [code_part ''q'' ''plaintext'']" by code_simp
  have e: "trim (slice ''x```y``` z'' 0 1) = ''x''" by code_simp
  have f: "parseMessage (slice_from ''x```y``` z'' (1 + 3)) = [text_part ''y``` z'']" by code_simp
  from first_closing_fence_ends_block [of "''```\<newline>q```''" "''Hi ``` x\<newline>''" "''js''" "''x```y``` z''" 1] a h b c
  have "parseMessage (''```\<newline>q```'' @ ''Hi ``` x\<newline>'' @ fence @ ''js'' @ [nl] @ ''x```y``` z'') =
        parseMessage ''```\<newline>q```'' @
        (if ''Hi ``` x\<newline>'' = [] then [] else [text_part ''Hi ``` x\<newline>'']) @
        code_part (trim (slice ''x```y``` z'' 0 1)) (if ''js'' = [] then ''plaintext'' else ''js'')
        # parseMessage (slice_from ''x```y``` z'' (1 + 3))" by blast
  then have "parseMessage (''```\<newline>q```'' @ ''Hi ``` x\<newline>'' @ fence @ ''js'' @ [nl] @ ''x```y``` z'') =
     [code_part ''q'' ''plaintext'', text_part ''Hi ``` x\<newline>'', code_part ''x'' ''js'',
      text_part ''y``` z'']"
    unfolding d e f by simp
  with a h c show ?thesis by blast
qed

subsection \<open>The language of a block\<close>

lemma no_match_at_bad_opener:
  assumes c: "\<not> is_word c" "c \<noteq> nl"
    and e: "exec (pre @ fence @ [c] @ t) k = Some m"
  shows "index m \<noteq> length pre"
proof
  let ?s = "pre @ fence @ [c] @ t"
  assume i: "index m = length pre"
  from e have k: "k \<le> length ?s" and r: "regex_search (drop k ?s) k = Some m"
    by (auto simp: exec_def split: if_splits)
  from search_Some [OF r] obtain j where j: "index m = k + j"
    and mh: "match_here (drop j (drop k ?s)) = Some (m0 m, m1 m, m2 m)" by blast
  have "drop j (drop k ?s) = drop (length pre) ?s" using i j by (simp add: add.commute)
  also have "\<dots> = fence @ c # t" by simp
  finally have "match_here (fence @ c # t) = Some (m0 m, m1 m, m2 m)" using mh by simp
  with header_not_word [OF c, of t] show False by simp
qed

text \<open>
  Claim C7, as the code has it. A block whose opener has no tag, the newline following
  the three backticks at once, becomes a code part with the language \<open>plaintext\<close>,
  wherever the block stands; in every message the language of every code part is the tag
  of its block, or \<open>plaintext\<close> when the tag is empty. When the character after three
  backticks is neither a word character nor a newline (a space, say), no match of the
  pattern starts at those backticks, from whatever index the search starts. The example
  of the specification gives one code part with the language \<open>plaintext\<close> and the
  content \<open>hello\<close>.
\<close>

theorem language_defaults_to_plaintext:
  "((a = [] \<or> ptype (last (parseMessage a)) = CodePart) \<and>
    list_all (\<lambda>j. header (slice_from (pre @ fence @ [nl] @ t) j) = None) [0..<length pre] \<and>
    indexOf t fence 0 = Some n \<longrightarrow>
      parseMessage (a @ pre @ fence @ [nl] @ t) =
        parseMessage a @ (if pre = [] then [] else [text_part pre]) @
        code_part (trim (slice t 0 n)) ''plaintext'' # parseMessage (slice_from t (n + 3))) \<and>
   (seg \<in> set (parseMessage s) \<and> ptype seg = CodePart \<longrightarrow>
      (\<exists>before tag body after.
         s = before @ fence @ tag @ [nl] @ body @ fence @ after \<and>
         (\<forall>c\<in>set tag. is_word c) \<and> content seg = trim body \<and>
         language seg = Some (if tag = [] then ''plaintext'' else tag))) \<and>
   (\<not> is_word c \<and> c \<noteq> nl \<and> exec (pre @ fence @ [c] @ t) k = Some m \<longrightarrow>
      index m \<noteq> length pre) \<and>
   parseMessage ''```\<newline>hello\<newline>```'' = [code_part ''hello'' ''plaintext'']"
proof -
  have 1: "parseMessage (a @ pre @ fence @ [nl] @ t) =
        parseMessage a @ (if pre = [] then [] else [text_part pre]) @
        code_part (trim (slice t 0 n)) ''plaintext'' # parseMessage (slice_from t (n + 3))"
    if "a = [] \<or> ptype (last (parseMessage a)) = CodePart"
      and "list_all (\<lambda>j. header (slice_from (pre @ fence @ [nl] @ t) j) = None) [0..<length pre]"
      and "indexOf t fence 0 = Some n"
    using parse_block_behind_text [of a pre "[]" t n] that
    by (simp add: slice_def slice_from_def)
  have 2: "\<exists>before tag body after.
         s = before @ fence @ tag @ [nl] @ body @ fence @ after \<and>
         (\<forall>c\<in>set tag. is_word c) \<and> content seg = trim body \<and>
         language seg = Some (if tag = [] then ''plaintext'' else tag)"
    if "seg \<in> set (parseMessage s)" and "ptype seg = CodePart"
    using code_from_block [OF that] by blast
  have 3: "index m \<noteq> length pre"
    if "\<not> is_word c" and "c \<noteq> nl" and "exec (pre @ fence @ [c] @ t) k = Some m"
    using no_match_at_bad_opener [OF that] .
  have 4: "parseMessage ''```\<newline>hello\<newline>```'' = [code_part ''hello'' ''plaintext'']"
    by code_simp
  from 1 2 3 4 show ?thesis by blast
qed

theorem language_defaults_to_plaintext_witness:
  "list_all (\<lambda>j. header (slice_from (''Hi '' @ fence @ [nl] @ ''hi```!'') j) = None)
     [0..<length ''Hi ''] \<and>
   indexOf ''hi```!'' fence 0 = Some 2 \<and>
   parseMessage (''Hi '' @ fence @ [nl] @ ''hi```!'') =
     [text_part ''Hi '', code_part ''hi'' ''plaintext'', text_part ''!''] \<and>
   \<not> is_word CHR '' '' \<and> CHR '' '' \<noteq> nl \<and>
   exec (''Hi '' @ fence @ [CHR '' ''] @ ''x\<newline>```\<newline>y```'') 0 =
     Some \<lparr>index = 9, m0 = ''```\<newline>y```'', m1 = None, m2 = ''y''\<rparr> \<and>
   index \<lparr>index = 9, m0 = ''```\<newline>y```'', m1 = None, m2 = ''y''\<rparr> \<noteq> length ''Hi ''"
proof -
  have h: "list_all (\<lambda>j. header (slice_from (''Hi '' @ fence @ [nl] @ ''hi```!'') j) = None)
     [0..<length ''Hi '']" by code_simp
  have a: "indexOf ''hi```!'' fence 0 = Some 2" by code_simp
  have b: "\<not> is_word CHR '' ''" by code_simp
  have c: "CHR '' '' \<noteq> nl" by code_simp
  have e: "trim (slice ''hi```!'' 0 2) = ''hi''" by code_simp
  have f: "parseMessage (slice_from ''hi```!'' (2 + 3)) = [text_part ''!'']" by code_simp
  have x: "exec (''Hi '' @ fence @ [CHR '' ''] @ ''x\<newline>```\<newline>y```'') 0 =
     Some \<lparr>index = 9, m0 = ''```\<newline>y```'', m1 = None, m2 = ''y''\<rparr>" by code_simp
  note t1 = language_defaults_to_plaintext [of "[]" "''Hi ''" "''hi```!''" 2]
  from t1 h a have "parseMessage ([] @ ''Hi '' @ fence @ [nl] @ ''hi```!'') =
      parseMessage [] @ (if ''Hi '' = [] then [] else [text_part ''Hi '']) @
      code_part (trim (slice ''hi```!'' 0 2)) ''plaintext''
      # parseMessage (slice_from ''hi```!'' (2 + 3))" by blast
  then have g: "parseMessage (''Hi '' @ fence @ [nl] @ ''hi```!'') =
      [text_part ''Hi '', code_part ''hi'' ''plaintext'', text_part ''!'']"
    unfolding e f by simp
  note t2 = language_defaults_to_plaintext [where c = "CHR '' ''" and pre = "''Hi ''" and t = "''x\<newline>```\<newline>y```''"
      and k = 0 and m = "\<lparr>index = 9, m0 = ''```\<newline>y```'', m1 = None, m2 = ''y''\<rparr>"]
  from t2 b c x
  have i: "index \<lparr>index = 9, m0 = ''```\<newline>y```'', m1 = None, m2 = ''y''\<rparr> \<noteq> length ''Hi ''"
    by blast
  from h a g b c x i show ?thesis by blast
qed

text \<open>
  The claim C7 as stated fails for a space after the opening backticks: the message is
  one text part and has no code part.
\<close>

theorem space_after_fence_is_text:
  "parseMessage ''``` \<newline>hello\<newline>```'' = [text_part ''``` \<newline>hello\<newline>```'']"
  by code_simp

subsection \<open>A block that starts between two steps\<close>

text \<open>
  Claim C1 fails on the code. The full text below has one complete block, from index 1
  to the end. The first timeout reveals three characters, so the second starts inside the
  opener, finds no three backticks at its index and reveals three more: the displayed
  text ends inside the block, and it is rendered as plain text.
\<close>

theorem fence_split_when_unaligned:
  "parseMessage ''a```js\<newline>x\<newline>```'' = [text_part ''a'', code_part ''x'' ''js''] \<and>
   displayedContent (run ''a```js\<newline>x\<newline>```'' None [Tick, Tick]) = ''a```js'' \<and>
   renderContent (run ''a```js\<newline>x\<newline>```'' None [Tick, Tick]) = Some [text_part ''a```js'']"
  by code_simp

end
